theory Spec2Isabelle
  imports Complex_Main "HOL-Library.Multiset"
begin

section \<open>Smart safe: storage, face matcher, sensor pipeline and unlock flow\<close>

text \<open>
  Conventions of the embedding.
  \<^item> A JavaScript \<open>number\<close> that carries a measurement (sensor axes, face descriptors,
    distances) is a \<^typ>\<open>real\<close>: the rounding of IEEE-754 doubles and of
    \<open>Float32Array\<close> is not part of the model.
  \<^item> \<open>Date.now()\<close> is an \<^typ>\<open>int\<close> of milliseconds handed to the function that reads
    the clock. An ISO timestamp string written by \<open>new Date().toISOString()\<close> is
    represented by the milliseconds \<open>new Date(s).getTime()\<close> reads back from it.
  \<^item> The three JSON files of \<open>lib/storage\<close> are the three fields of one record that
    every storage function takes and returns.
  \<^item> \<open>bcrypt.compare\<close> (behind \<open>verifyPassword\<close>) is an argument \<open>bc\<close> of the functions
    that call it.
  \<^item> Field names that several interfaces share carry a prefix: \<open>u_\<close> for \<open>User\<close>,
    \<open>e_\<close> for \<open>Event\<close>, \<open>f_\<close> for \<open>FaceData\<close>, \<open>m_\<close> for a match, \<open>q_\<close> for the
    fields of a request body, \<open>v\<close> for the axes of a vector.
  \<^item> Reading and writing the files is taken to succeed: \<open>readFile\<close> of \<open>lib/storage\<close>
    already answers every failure with the default value.
\<close>

subsection \<open>lib/storage: records\<close>

type_synonym descriptor = "real list"

datatype meta = MStr string | MNum real | MBool bool

type_synonym metadata = "(string \<times> meta) list"

record User =
  u_id :: string
  u_name :: string
  u_email :: string
  u_passwordHash :: string
  u_isAdmin :: bool
  u_faceDescriptor :: "descriptor option"
  u_voicePhrase :: "string option"
  u_pinHash :: "string option"
  u_createdAt :: int

record Event =
  e_id :: int
  e_type :: string
  e_userId :: "string option"
  e_userName :: "string option"
  e_timestamp :: int
  e_metadata :: "metadata option"

record FaceData =
  f_userId :: string
  f_descriptor :: descriptor
  f_image :: "string option"
  f_createdAt :: int

record data_dir =
  USERS_FILE :: "User list"
  EVENTS_FILE :: "Event list"
  FACES_FILE :: "FaceData list"

text \<open>What a caller of \<open>createEvent\<close> supplies: \<open>Omit<Event, "id" | "timestamp">\<close>.\<close>

record NewEvent =
  n_type :: string
  n_userId :: "string option"
  n_userName :: "string option"
  n_metadata :: "metadata option"

subsection \<open>lib/storage: operations\<close>

text \<open>\<open>Array.prototype.findIndex\<close>: the first index whose element satisfies the predicate,
  \<open>None\<close> for the \<open>-1\<close> of JavaScript.\<close>

fun findIndex :: "('a \<Rightarrow> bool) \<Rightarrow> 'a list \<Rightarrow> nat option" where
  "findIndex P [] = None"
| "findIndex P (x # xs) =
     (if P x then Some 0 else (case findIndex P xs of None \<Rightarrow> None | Some i \<Rightarrow> Some (Suc i)))"

definition getUsers :: "data_dir \<Rightarrow> User list" where
  "getUsers d = USERS_FILE d"

definition getUserById :: "data_dir \<Rightarrow> string \<Rightarrow> User option" where
  "getUserById d i = find (\<lambda>u. u_id u = i) (getUsers d)"

definition updateUser :: "data_dir \<Rightarrow> string \<Rightarrow> (User \<Rightarrow> User) \<Rightarrow> data_dir \<times> User option" where
  "updateUser d i updates =
     (let users = getUsers d in
      case findIndex (\<lambda>u. u_id u = i) users of
        None \<Rightarrow> (d, None)
      | Some index \<Rightarrow>
          (let users' = users[index := updates (users ! index)]
           in (d\<lparr>USERS_FILE := users'\<rparr>, Some (users' ! index))))"

text \<open>\<open>Array.prototype.slice(0, limit)\<close> for an integer \<open>limit\<close>: a negative end counts
  from the end of the array.\<close>

definition slice0 :: "'a list \<Rightarrow> int \<Rightarrow> 'a list" where
  "slice0 xs limit =
     (if limit < 0 then take (nat (int (length xs) + limit)) xs else take (nat limit) xs)"

text \<open>\<open>events.sort((a, b) => getTime(b.timestamp) - getTime(a.timestamp))\<close>: the sort of
  an array is stable, here on the negated timestamp. \<open>limit\<close> is \<open>None\<close> when the caller
  passes \<open>undefined\<close> (or a \<open>NaN\<close>, which the test \<open>limit ? \<dots>\<close> treats alike).\<close>

definition getEvents :: "data_dir \<Rightarrow> int option \<Rightarrow> Event list" where
  "getEvents d limit =
     (let events = EVENTS_FILE d;
          sorted' = sort_key (\<lambda>e. - e_timestamp e) events
      in case limit of
           None \<Rightarrow> sorted'
         | Some l \<Rightarrow> (if l \<noteq> 0 then slice0 sorted' l else sorted'))"

definition createEvent :: "int \<Rightarrow> data_dir \<Rightarrow> NewEvent \<Rightarrow> data_dir \<times> Event" where
  "createEvent now d event =
     (let events = getEvents d None;
          newEvent = \<lparr>e_id = now, e_type = n_type event, e_userId = n_userId event,
                      e_userName = n_userName event, e_timestamp = now,
                      e_metadata = n_metadata event\<rparr>
      in (d\<lparr>EVENTS_FILE := events @ [newEvent]\<rparr>, newEvent))"

definition getFaceData :: "data_dir \<Rightarrow> FaceData list" where
  "getFaceData d = FACES_FILE d"

definition saveFaceData_storage ::
  "int \<Rightarrow> data_dir \<Rightarrow> string \<Rightarrow> descriptor \<Rightarrow> string option \<Rightarrow> data_dir" where
  "saveFaceData_storage now d userId descriptor img =
     (let faces = getFaceData d;
          existingIndex = findIndex (\<lambda>f. f_userId f = userId) faces;
          faceData = \<lparr>f_userId = userId, f_descriptor = descriptor, f_image = img,
                      f_createdAt = now\<rparr>;
          faces' = (case existingIndex of
                      Some i \<Rightarrow> faces[i := faceData]
                    | None \<Rightarrow> faces @ [faceData]);
          d' = d\<lparr>FACES_FILE := faces'\<rparr>
      in fst (updateUser d' userId (\<lambda>u. u\<lparr>u_faceDescriptor := Some descriptor\<rparr>)))"

definition deleteFaceData :: "data_dir \<Rightarrow> string \<Rightarrow> data_dir \<times> bool" where
  "deleteFaceData d userId =
     (let faces = getFaceData d;
          filtered = filter (\<lambda>f. f_userId f \<noteq> userId) faces
      in if length filtered = length faces then (d, False)
         else (d\<lparr>FACES_FILE := filtered\<rparr>, True))"

subsection \<open>lib/face-api-server\<close>

text \<open>\<open>saveFaceData\<close> of \<open>lib/face-api-server\<close>: an empty descriptor is refused
  (\<open>None\<close> for the \<open>null\<close> it returns) and nothing is stored.\<close>

definition saveFaceData :: "int \<Rightarrow> data_dir \<Rightarrow> string \<Rightarrow> descriptor \<Rightarrow> data_dir \<times> descriptor option" where
  "saveFaceData now d userId descriptor =
     (if length descriptor = 0 then (d, None)
      else (saveFaceData_storage now d userId descriptor None, Some descriptor))"

record Match =
  m_userId :: string
  m_distance :: real

text \<open>The inner loop: the sum of squared differences over the indices both arrays have.\<close>

fun sumSquares :: "descriptor \<Rightarrow> descriptor \<Rightarrow> real \<Rightarrow> real" where
  "sumSquares (a # as) (b # bs) s = sumSquares as bs (s + (a - b) * (a - b))"
| "sumSquares _ _ s = s"

definition distance :: "descriptor \<Rightarrow> descriptor \<Rightarrow> real" where
  "distance inputDescriptor faceDescriptor = sqrt (sumSquares inputDescriptor faceDescriptor 0)"

definition threshold :: real where
  "threshold = 6 / 10"

text \<open>The outer loop of \<open>recognizeFaceFromDescriptor\<close> over the stored faces, with
  \<open>bestMatch\<close> as the accumulator and the distance to the input descriptor as an
  argument.\<close>

fun scanFaces :: "(descriptor \<Rightarrow> real) \<Rightarrow> FaceData list \<Rightarrow> Match option \<Rightarrow> Match option" where
  "scanFaces distTo [] bestMatch = bestMatch"
| "scanFaces distTo (face # rest) bestMatch =
     (let dst = distTo (f_descriptor face) in
      scanFaces distTo rest
        (if dst < threshold then
           (case bestMatch of
              None \<Rightarrow> Some \<lparr>m_userId = f_userId face, m_distance = dst\<rparr>
            | Some b \<Rightarrow>
                (if dst < m_distance b
                 then Some \<lparr>m_userId = f_userId face, m_distance = dst\<rparr>
                 else bestMatch))
         else bestMatch))"

definition recognizeFaceFromDescriptor :: "data_dir \<Rightarrow> descriptor \<Rightarrow> Match option" where
  "recognizeFaceFromDescriptor d descriptor =
     scanFaces (distance descriptor) (getFaceData d) None"

text \<open>\<open>recognizeFace\<close> of \<open>lib/face-recognition\<close> runs the same loop, but takes
  the distance from \<open>faceapi.euclideanDistance\<close>. The library function is not part of
  this repository, so it is an argument; it throws when the two descriptors differ in
  length, which is the value \<open>None\<close> here, and the throw leaves the loop and rejects
  the promise of \<open>recognizeFace\<close>: the result \<open>Inl DistanceThrew\<close>.\<close>

datatype thrown = DistanceThrew

fun scanFacesLib :: "(descriptor \<Rightarrow> real option) \<Rightarrow> FaceData list \<Rightarrow> Match option
    \<Rightarrow> thrown + Match option" where
  "scanFacesLib distTo [] bestMatch = Inr bestMatch"
| "scanFacesLib distTo (face # rest) bestMatch =
     (case distTo (f_descriptor face) of
        None \<Rightarrow> Inl DistanceThrew
      | Some dst \<Rightarrow>
          scanFacesLib distTo rest
            (if dst < threshold then
               (case bestMatch of
                  None \<Rightarrow> Some \<lparr>m_userId = f_userId face, m_distance = dst\<rparr>
                | Some b \<Rightarrow>
                    (if dst < m_distance b
                     then Some \<lparr>m_userId = f_userId face, m_distance = dst\<rparr>
                     else bestMatch))
             else bestMatch))"

definition recognizeFace :: "(descriptor \<Rightarrow> descriptor \<Rightarrow> real option) \<Rightarrow> data_dir \<Rightarrow> descriptor
    \<Rightarrow> thrown + Match option" where
  "recognizeFace euclideanDistance d descriptor =
     scanFacesLib (euclideanDistance descriptor) (getFaceData d) None"

subsection \<open>API routes\<close>

datatype resp_body =
    ErrorBody string
  | RecognizeBody string "string option" real
  | SuccessBody
  | EventBody Event

record Response =
  status :: nat
  body :: resp_body

text \<open>\<open>response.ok\<close> of the fetch API.\<close>

definition ok :: "Response \<Rightarrow> bool" where
  "ok r = (200 \<le> status r \<and> status r < 300)"

definition json :: "nat \<Rightarrow> resp_body \<Rightarrow> Response" where
  "json st b = \<lparr>status = st, body = b\<rparr>"

text \<open>A field of a request body: \<open>None\<close> when the JSON has no such field (or \<open>null\<close>).
  \<open>!field\<close> also holds for the empty string.\<close>

definition falsy :: "string option \<Rightarrow> bool" where
  "falsy v = (case v of None \<Rightarrow> True | Some str \<Rightarrow> str = [])"

record recognize_request =
  q_descriptor :: "descriptor option"

record verify_request =
  q_userId :: "string option"
  q_pin :: "string option"

record events_request =
  q_type :: "string option"
  q_evUserId :: "string option"
  q_evUserName :: "string option"
  q_metadata :: "metadata option"

text \<open>\<open>POST /api/face/recognize\<close>. The request is \<open>None\<close> when \<open>request.json()\<close>
  throws, which the \<open>catch\<close> answers with status 500. An array is truthy in JavaScript,
  the empty one too, so \<open>!descriptor\<close> holds only for a missing descriptor.\<close>

definition recognize_POST :: "int \<Rightarrow> data_dir \<Rightarrow> recognize_request option \<Rightarrow> Response \<times> data_dir" where
  "recognize_POST now d request =
     (case request of
        None \<Rightarrow> (json 500 (ErrorBody ''Internal server error''), d)
      | Some rq \<Rightarrow>
          (case q_descriptor rq of
             None \<Rightarrow> (json 400 (ErrorBody ''descriptor is required''), d)
           | Some descriptor \<Rightarrow>
               (case recognizeFaceFromDescriptor d descriptor of
                  None \<Rightarrow>
                    (let (d', ev) = createEvent now d
                           \<lparr>n_type = ''unauthorized_face'', n_userId = None, n_userName = None,
                            n_metadata = Some [(''reason'', MStr ''No matching face found'')]\<rparr>
                     in (json 401 (ErrorBody ''Face not recognized''), d'))
                | Some match \<Rightarrow>
                    (let user = getUserById d (m_userId match)
                     in (json 200 (RecognizeBody (m_userId match) (map_option u_name user)
                                     (m_distance match)), d)))))"

text \<open>\<open>POST /api/face/verify-pin\<close>, with \<open>bc\<close> for \<open>verifyPassword\<close>.\<close>

definition verify_pin_POST ::
  "(string \<Rightarrow> string \<Rightarrow> bool) \<Rightarrow> int \<Rightarrow> data_dir \<Rightarrow> verify_request option \<Rightarrow> Response \<times> data_dir" where
  "verify_pin_POST bc now d request =
     (case request of
        None \<Rightarrow> (json 500 (ErrorBody ''Internal server error''), d)
      | Some rq \<Rightarrow>
          (case (q_userId rq, q_pin rq) of
             (Some userId, Some pin) \<Rightarrow>
               (if userId = [] \<or> pin = []
                then (json 400 (ErrorBody ''UserId and PIN are required''), d)
                else
                  (case getUserById d userId of
                     None \<Rightarrow> (json 404 (ErrorBody ''User not found''), d)
                   | Some user \<Rightarrow>
                       (case u_pinHash user of
                          None \<Rightarrow> (json 400 (ErrorBody ''PIN not set for this user''), d)
                        | Some pinHash \<Rightarrow>
                            (if pinHash = []
                             then (json 400 (ErrorBody ''PIN not set for this user''), d)
                             else if \<not> bc pin pinHash then
                               (let (d', ev) = createEvent now d
                                      \<lparr>n_type = ''unauthorized_face'', n_userId = Some userId,
                                       n_userName = Some (u_name user),
                                       n_metadata = Some [(''reason'', MStr ''Invalid PIN'')]\<rparr>
                                in (json 401 (ErrorBody ''Invalid PIN''), d'))
                             else (json 200 SuccessBody, d)))))
           | _ \<Rightarrow> (json 400 (ErrorBody ''UserId and PIN are required''), d)))"

text \<open>\<open>POST /api/events\<close>.\<close>

definition events_POST :: "int \<Rightarrow> data_dir \<Rightarrow> events_request option \<Rightarrow> Response \<times> data_dir" where
  "events_POST now d request =
     (case request of
        None \<Rightarrow> (json 500 (ErrorBody ''Internal server error''), d)
      | Some rq \<Rightarrow>
          (case q_type rq of
             None \<Rightarrow> (json 400 (ErrorBody ''Event type is required''), d)
           | Some type \<Rightarrow>
               (if type = [] then (json 400 (ErrorBody ''Event type is required''), d)
                else
                  (let (d', ev) = createEvent now d
                         \<lparr>n_type = type, n_userId = q_evUserId rq,
                          n_userName = q_evUserName rq, n_metadata = q_metadata rq\<rparr>
                   in (json 200 (EventBody ev), d')))))"

subsection \<open>Sensor pipeline: the socket hub of server.ts\<close>

record Vector3 =
  vx :: real
  vy :: real
  vz :: real

record SensorData =
  accelerometer :: Vector3
  gyroscope :: Vector3
  timestamp :: int

datatype emit =
    SensorDataEmit SensorData
  | TheftAlert real int
  | GhostModeAlert int

definition accelMagnitude :: "SensorData \<Rightarrow> real" where
  "accelMagnitude data =
     sqrt ((vx (accelerometer data))\<^sup>2 + (vy (accelerometer data))\<^sup>2 + (vz (accelerometer data))\<^sup>2)"

text \<open>The handler of \<open>socket.on("sensor-data")\<close>: the retained history and the messages
  it emits to every connected client, in order.\<close>

definition on_sensor_data :: "int \<Rightarrow> SensorData list \<Rightarrow> SensorData \<Rightarrow> SensorData list \<times> emit list" where
  "on_sensor_data now sensorDataStore data =
     (let store1 = sensorDataStore @ [data];
          store2 = (if length store1 > 100 then tl store1 else store1);
          m = accelMagnitude data
      in (store2,
          [SensorDataEmit data]
          @ (if m > 50 then [TheftAlert m now] else [])
          @ (if m < 1 / 10 \<and> \<bar>vx (gyroscope data)\<bar> < 1 / 10 \<and> \<bar>vy (gyroscope data)\<bar> < 1 / 10
                \<and> \<bar>vz (gyroscope data)\<bar> < 1 / 10
             then [GhostModeAlert now] else [])))"

subsection \<open>Sensor pipeline: the admin dashboard\<close>

record AccelBuffer =
  buf_x :: "real list"
  buf_y :: "real list"
  buf_z :: "real list"

record Chart =
  labels :: "int list"
  datasets :: "real list list"

record Dashboard =
  accelBufferRef :: AccelBuffer
  lastMovementEventRef :: int
  accidentCount :: nat
  theftDetected :: bool
  accelData :: Chart
  gyroData :: Chart

text \<open>The initial values of \<open>useRef\<close> and \<open>useState\<close>.\<close>

definition initialDashboard :: Dashboard where
  "initialDashboard =
     \<lparr>accelBufferRef = \<lparr>buf_x = [], buf_y = [], buf_z = []\<rparr>,
      lastMovementEventRef = 0, accidentCount = 0, theftDetected = False,
      accelData = \<lparr>labels = [], datasets = [[], [], []]\<rparr>,
      gyroData = \<lparr>labels = [], datasets = [[], [], []]\<rparr>\<rparr>"

definition bufferSize :: nat where
  "bufferSize = 5"

definition MOVEMENT_EVENT_COOLDOWN :: int where
  "MOVEMENT_EVENT_COOLDOWN = 5000"

text \<open>\<open>arr.reduce((a, b) => a + b, 0) / arr.length\<close>.\<close>

definition average :: "real list \<Rightarrow> real" where
  "average arr = foldl (\<lambda>a b. a + b) 0 arr / real (length arr)"

definition smoothAccelerometer :: "AccelBuffer \<Rightarrow> real \<Rightarrow> real \<Rightarrow> real \<Rightarrow> AccelBuffer \<times> Vector3" where
  "smoothAccelerometer buf x y z =
     (let pushed = \<lparr>buf_x = buf_x buf @ [x], buf_y = buf_y buf @ [y], buf_z = buf_z buf @ [z]\<rparr>;
          kept = (if length (buf_x pushed) > bufferSize
                  then \<lparr>buf_x = tl (buf_x pushed), buf_y = tl (buf_y pushed),
                        buf_z = tl (buf_z pushed)\<rparr>
                  else pushed)
      in (kept, \<lparr>vx = average (buf_x kept), vy = average (buf_y kept),
                 vz = average (buf_z kept) - 5\<rparr>))"

text \<open>One chart update: append a label and one value per dataset, keep the last 20.\<close>

definition pushChart :: "Chart \<Rightarrow> int \<Rightarrow> real list \<Rightarrow> Chart" where
  "pushChart prev time vals =
     (let newLabels = labels prev @ [time];
          newDatasets = map (\<lambda>(dataset, v). dataset @ [v]) (zip (datasets prev) vals)
      in if length newLabels > 20
         then \<lparr>labels = tl newLabels, datasets = map tl newDatasets\<rparr>
         else \<lparr>labels = newLabels, datasets = newDatasets\<rparr>)"

text \<open>A \<open>fetch("/api/events", {method: "POST", \<dots>})\<close> of the dashboard, not awaited.\<close>

datatype post = PostEvent string metadata

definition movementMetadata :: "SensorData \<Rightarrow> metadata" where
  "movementMetadata data =
     (if \<bar>vx (accelerometer data)\<bar> > 5 then [(''accelX'', MNum (vx (accelerometer data)))] else [])
     @ (if \<bar>vy (accelerometer data)\<bar> > 5 then [(''accelY'', MNum (vy (accelerometer data)))] else [])
     @ (if \<bar>vx (gyroscope data)\<bar> > 2 then [(''gyroX'', MNum (vx (gyroscope data)))] else [])
     @ (if \<bar>vy (gyroscope data)\<bar> > 2 then [(''gyroY'', MNum (vy (gyroscope data)))] else [])
     @ (if \<bar>vz (gyroscope data)\<bar> > 2 then [(''gyroZ'', MNum (vz (gyroscope data)))] else [])"

definition movementExceeded :: "SensorData \<Rightarrow> bool" where
  "movementExceeded data =
     (\<bar>vx (accelerometer data)\<bar> > 5 \<or> \<bar>vy (accelerometer data)\<bar> > 5
      \<or> \<bar>vx (gyroscope data)\<bar> > 2 \<or> \<bar>vy (gyroscope data)\<bar> > 2 \<or> \<bar>vz (gyroscope data)\<bar> > 2)"

text \<open>\<open>handleSensorData\<close>, with \<open>now\<close> for its \<open>Date.now()\<close>: the new state of the
  component and the requests it sends.\<close>

definition handleSensorData :: "int \<Rightarrow> Dashboard \<Rightarrow> SensorData \<Rightarrow> Dashboard \<times> post list" where
  "handleSensorData now s data =
     (let (buf, smoothed) = smoothAccelerometer (accelBufferRef s)
            (vx (accelerometer data)) (vy (accelerometer data)) (vz (accelerometer data));
          s1 = s\<lparr>accelBufferRef := buf,
                 accelData := pushChart (accelData s) (timestamp data)
                                [vx smoothed, vy smoothed, vz smoothed]\<rparr>;
          s2 = (if vx (gyroscope data) \<noteq> 0 \<or> vy (gyroscope data) \<noteq> 0 \<or> vz (gyroscope data) \<noteq> 0
                then s1\<lparr>gyroData := pushChart (gyroData s1) (timestamp data)
                          [vx (gyroscope data), vy (gyroscope data), vz (gyroscope data)]\<rparr>
                else s1);
          m = accelMagnitude data;
          theft = (m > 50);
          s3 = (if theft then s2\<lparr>accidentCount := accidentCount s2 + 1, theftDetected := True\<rparr>
                else s2);
          movement = (movementExceeded data
                      \<and> now - lastMovementEventRef s3 > MOVEMENT_EVENT_COOLDOWN);
          s4 = (if movement then s3\<lparr>lastMovementEventRef := now\<rparr> else s3)
      in (s4,
          (if theft then [PostEvent ''theft_detected'' [(''magnitude'', MNum m)]] else [])
          @ (if movement then [PostEvent ''movement_detected'' (movementMetadata data)] else [])))"

text \<open>The three producers that feed \<open>handleSensorData\<close> of one dashboard: the Socket.io
  channel and the two native WebSockets. A WebSocket message is \<open>None\<close> when it does not
  parse or has no \<open>values\<close>; \<open>values[i] || 0\<close> is \<open>values[i]\<close> on a real number.\<close>

datatype message =
    SocketIO SensorData
  | AccelWS "real list option"
  | GyroWS "real list option"

definition zeroVector :: Vector3 where
  "zeroVector = \<lparr>vx = 0, vy = 0, vz = 0\<rparr>"

definition onMessage :: "int \<Rightarrow> Dashboard \<Rightarrow> message \<Rightarrow> Dashboard \<times> post list" where
  "onMessage now s msg =
     (case msg of
        SocketIO data \<Rightarrow> handleSensorData now s data
      | AccelWS None \<Rightarrow> (s, [])
      | AccelWS (Some values) \<Rightarrow>
          (if length values \<ge> 3
           then handleSensorData now s
                  \<lparr>accelerometer = \<lparr>vx = values ! 0, vy = values ! 1, vz = values ! 2\<rparr>,
                   gyroscope = zeroVector, timestamp = now\<rparr>
           else (s, []))
      | GyroWS None \<Rightarrow> (s, [])
      | GyroWS (Some values) \<Rightarrow>
          (if length values \<ge> 3
           then handleSensorData now s
                  \<lparr>accelerometer = zeroVector,
                   gyroscope = \<lparr>vx = values ! 0, vy = values ! 1, vz = values ! 2\<rparr>,
                   timestamp = now\<rparr>
           else (s, [])))"

text \<open>A run of the dashboard: the messages in arrival order, each with the clock reading
  of its handler; the result is the final state and the requests of each message.\<close>

fun feed :: "Dashboard \<Rightarrow> (int \<times> message) list \<Rightarrow> Dashboard \<times> post list list" where
  "feed s [] = (s, [])"
| "feed s ((now, msg) # rest) =
     (let (s', posts) = onMessage now s msg;
          (s'', more) = feed s' rest
      in (s'', posts # more))"

subsection \<open>The safe page: state\<close>

datatype SafeState = Locked | Unlocking | Unlocked | Setup

record SafePage =
  safeState :: SafeState
  pin :: string
  statusMessage :: string
  modelsLoaded :: bool
  cameraPermission :: "bool option"
  micPermission :: "bool option"

text \<open>What the page exchanges with the outside, in the order it happens: a request to a
  route with the route's response, the result of \<open>stopRecording()\<close>, a GET to the lock
  actuator (the base URL and the angle appended to it), and the calls
  \<open>localStorage.setItem("recognizedUserId", \<dots>)\<close> and
  \<open>localStorage.removeItem("recognizedUserId")\<close>.\<close>

datatype io =
    RecognizeExchange descriptor Response
  | VerifyPinExchange string string Response
  | EventsExchange events_request Response
  | Recording bool
  | ActuatorFetch string int
  | SetItem string
  | RemoveItem

text \<open>
  The page together with its surroundings. \<open>recognizedUserId\<close> is the item of that name
  in \<open>localStorage\<close>; \<open>esp32Url\<close> is \<open>process.env.NEXT_PUBLIC_ESP32_URL\<close>. A handler that
  awaits is split at the await: what it has captured waits in \<open>scanTimers\<close> (the
  \<open>setTimeout\<close> of \<open>handleUnlock\<close>), \<open>recognizeCalls\<close> and \<open>verifyCalls\<close> (a fetch that
  the server has answered and whose response the page has not handled yet) and
  \<open>recordingTimers\<close> (the \<open>setTimeout\<close> after a verified PIN, with the \<open>userId\<close> of its
  closure). The camera stream of \<open>startVideo\<close>/\<open>stopVideo\<close> and the enrolment handlers,
  which neither read \<open>recognizedUserId\<close> nor call the actuator, are not modelled.
\<close>

record sys =
  page :: SafePage
  recognizedUserId :: "string option"
  esp32Url :: "string option"
  server :: data_dir
  scanTimers :: nat
  recognizeCalls :: "Response list"
  verifyCalls :: "(string \<times> Response) list"
  recordingTimers :: "string list"
  io_log :: "io list"

definition initialPage :: SafePage where
  "initialPage =
     \<lparr>safeState = Locked, pin = [], statusMessage = [], modelsLoaded = False,
      cameraPermission = None, micPermission = None\<rparr>"

definition initialSys :: "string option \<Rightarrow> data_dir \<Rightarrow> sys" where
  "initialSys url d =
     \<lparr>page = initialPage, recognizedUserId = None, esp32Url = url, server = d,
      scanTimers = 0, recognizeCalls = [], verifyCalls = [], recordingTimers = [],
      io_log = []\<rparr>"

subsection \<open>The safe page: handlers\<close>

datatype perm_result = Granted | Denied string

datatype scan_result = CaptureFailed | CameraMissing | NoFace | Threw | Detected descriptor

definition requestPermissions :: "perm_result \<Rightarrow> SafePage \<Rightarrow> SafePage" where
  "requestPermissions res p =
     (case res of
        Granted \<Rightarrow>
          p\<lparr>cameraPermission := Some True, micPermission := Some True,
            statusMessage := ''Permissions granted! You can now use the safe.''\<rparr>
      | Denied msg \<Rightarrow>
          p\<lparr>cameraPermission := Some False, micPermission := Some False,
            statusMessage := msg\<rparr>)"

text \<open>\<open>handleUnlock\<close> up to its \<open>setTimeout\<close>. The second test of the permissions reads
  the values the closure captured, so a call that had to ask for them always returns.\<close>

definition handleUnlock :: "perm_result \<Rightarrow> sys \<Rightarrow> sys" where
  "handleUnlock res s =
     (let p = page s in
      if \<not> modelsLoaded p
      then s\<lparr>page := p\<lparr>statusMessage := ''Face recognition models not loaded yet.''\<rparr>\<rparr>
      else if cameraPermission p \<noteq> Some True \<or> micPermission p \<noteq> Some True
      then s\<lparr>page := requestPermissions res
                 (p\<lparr>statusMessage := ''Please grant camera and microphone permissions first.''\<rparr>)\<rparr>
      else s\<lparr>page := p\<lparr>safeState := Unlocking, statusMessage := ''Scanning face...''\<rparr>,
             scanTimers := scanTimers s + 1\<rparr>)"

definition backToLocked :: "string \<Rightarrow> sys \<Rightarrow> sys" where
  "backToLocked msg s = s\<lparr>page := (page s)\<lparr>statusMessage := msg, safeState := Locked\<rparr>\<rparr>"

text \<open>The callback of that \<open>setTimeout\<close>, up to the fetch of \<open>/api/face/recognize\<close>.\<close>

definition scanCallback :: "scan_result \<Rightarrow> int \<Rightarrow> sys \<Rightarrow> sys" where
  "scanCallback res now s =
     (case res of
        CaptureFailed \<Rightarrow> backToLocked ''Failed to capture image.'' s
      | CameraMissing \<Rightarrow> backToLocked ''Camera not available.'' s
      | NoFace \<Rightarrow>
          backToLocked ''No face detected. Please position your face in the camera.'' s
      | Threw \<Rightarrow> backToLocked ''Error during unlock process.'' s
      | Detected descriptor \<Rightarrow>
          (let (resp, d') = recognize_POST now (server s) (Some \<lparr>q_descriptor = Some descriptor\<rparr>)
           in s\<lparr>server := d', recognizeCalls := recognizeCalls s @ [resp],
                io_log := io_log s @ [RecognizeExchange descriptor resp]\<rparr>))"

text \<open>\<open>const { userId } = await response.json()\<close>: a body without the field gives
  \<open>undefined\<close>, which \<open>localStorage.setItem\<close> stores as the string \<open>undefined\<close>.\<close>

definition resp_userId :: "Response \<Rightarrow> string" where
  "resp_userId r = (case body r of RecognizeBody userId _ _ \<Rightarrow> userId | _ \<Rightarrow> ''undefined'')"

definition recognizeResponse :: "Response \<Rightarrow> sys \<Rightarrow> sys" where
  "recognizeResponse resp s =
     (if \<not> ok resp then backToLocked ''Face not recognized. Access denied.'' s
      else s\<lparr>recognizedUserId := Some (resp_userId resp),
             io_log := io_log s @ [SetItem (resp_userId resp)],
             page := (page s)\<lparr>statusMessage := ''Face recognized. Please enter your PIN below.'',
                              pin := []\<rparr>\<rparr>)"

text \<open>The \<open>onClick\<close> of the button "Verify PIN & Voice", up to the fetch of
  \<open>/api/face/verify-pin\<close>.\<close>

definition verifyOnClick :: "(string \<Rightarrow> string \<Rightarrow> bool) \<Rightarrow> int \<Rightarrow> sys \<Rightarrow> sys" where
  "verifyOnClick bc now s =
     (let p = page s in
      if pin p = [] \<or> length (pin p) < 4
      then s\<lparr>page := p\<lparr>statusMessage := ''Please enter a valid PIN (at least 4 digits).''\<rparr>\<rparr>
      else
        (case recognizedUserId s of
           None \<Rightarrow> s\<lparr>page := p\<lparr>statusMessage := ''Face recognition required first.''\<rparr>\<rparr>
         | Some userId \<Rightarrow>
             (if userId = []
              then s\<lparr>page := p\<lparr>statusMessage := ''Face recognition required first.''\<rparr>\<rparr>
              else
                (let (resp, d') = verify_pin_POST bc now (server s)
                                    (Some \<lparr>q_userId = Some userId, q_pin = Some (pin p)\<rparr>)
                 in s\<lparr>server := d', verifyCalls := verifyCalls s @ [(userId, resp)],
                      io_log := io_log s @ [VerifyPinExchange userId (pin p) resp]\<rparr>))))"

definition errorText :: "Response \<Rightarrow> string" where
  "errorText r = (case body r of ErrorBody e \<Rightarrow> (if e = [] then ''Access denied.'' else e)
                               | _ \<Rightarrow> ''Access denied.'')"

text \<open>The same handler from the response of the fetch to its \<open>setTimeout\<close>.\<close>

definition verifyResponse :: "string \<Rightarrow> Response \<Rightarrow> sys \<Rightarrow> sys" where
  "verifyResponse userId resp s =
     (if \<not> ok resp
      then s\<lparr>page := (page s)\<lparr>statusMessage := ''Invalid PIN. '' @ errorText resp, pin := [],
                              safeState := Locked\<rparr>,
             recognizedUserId := None, io_log := io_log s @ [RemoveItem]\<rparr>
      else s\<lparr>page := (page s)\<lparr>statusMessage := ''PIN verified. Please speak your phrase now.''\<rparr>,
             recordingTimers := recordingTimers s @ [userId]\<rparr>)"

text \<open>The callback of that \<open>setTimeout\<close>, three seconds later: \<open>hasAudio\<close> is what
  \<open>stopRecording()\<close> resolves to. The event and the actuator request are sent without
  being awaited; the actuator request only when the URL is configured.\<close>

definition recordingCallback :: "string \<Rightarrow> bool \<Rightarrow> int \<Rightarrow> sys \<Rightarrow> sys" where
  "recordingCallback userId hasAudio now s =
     (let s0 = s\<lparr>io_log := io_log s @ [Recording hasAudio]\<rparr> in
      if hasAudio then
        (let rq = \<lparr>q_type = Some ''unlock'', q_evUserId = Some userId, q_evUserName = None,
                   q_metadata = Some [(''verified'', MStr ''face+pin+voice'')]\<rparr>;
             (resp, d') = events_POST now (server s0) (Some rq);
             log1 = io_log s0 @ [EventsExchange rq resp];
             log2 = (case esp32Url s0 of
                       None \<Rightarrow> log1
                     | Some url \<Rightarrow> (if url = [] then log1 else log1 @ [ActuatorFetch url 90]))
         in s0\<lparr>server := d', io_log := log2 @ [RemoveItem],
                page := (page s0)\<lparr>statusMessage := ''Safe unlocked'', safeState := Unlocked,
                                  pin := []\<rparr>,
                recognizedUserId := None\<rparr>)
      else s0\<lparr>page := (page s0)\<lparr>statusMessage := ''No audio detected. Please speak your phrase.'',
                                pin := [], safeState := Locked\<rparr>,
              recognizedUserId := None, io_log := io_log s0 @ [RemoveItem]\<rparr>)"

text \<open>\<open>handleLock\<close>: the template literal renders an unset URL as \<open>undefined\<close>; the lock
  event is posted only when the awaited actuator request did not throw (\<open>reached\<close>).\<close>

definition handleLock :: "bool \<Rightarrow> int \<Rightarrow> sys \<Rightarrow> sys" where
  "handleLock reached now s =
     (let base = (case esp32Url s of None \<Rightarrow> ''undefined'' | Some url \<Rightarrow> url);
          s1 = s\<lparr>page := (page s)\<lparr>safeState := Locked, statusMessage := ''Safe locked''\<rparr>,
                 io_log := io_log s @ [ActuatorFetch base (- 90)]\<rparr>
      in if reached then
           (let rq = \<lparr>q_type = Some ''lock'', q_evUserId = None, q_evUserName = None,
                      q_metadata = None\<rparr>;
                (resp, d') = events_POST now (server s1) (Some rq)
            in s1\<lparr>server := d', io_log := io_log s1 @ [EventsExchange rq resp]\<rparr>)
         else s1)"

text \<open>\<open>onChange\<close> of the PIN input: \<open>e.target.value.replace(/\D/g, "")\<close>.\<close>

definition digitsOnly :: "string \<Rightarrow> string" where
  "digitsOnly v = filter (\<lambda>c. c \<in> set ''0123456789'') v"

definition removeAt :: "nat \<Rightarrow> 'a list \<Rightarrow> 'a list" where
  "removeAt i xs = take i xs @ drop (Suc i) xs"

subsection \<open>The safe page: what can happen next\<close>

datatype action =
    ModelsLoaded bool
  | PermissionsQueried bool bool
  | ClickGrant perm_result
  | ClickUnlock perm_result
  | ScanTimer scan_result int
  | RecognizeResponse nat
  | TypePin string
  | ClickVerify int
  | VerifyResponse nat
  | RecordingTimer nat bool int
  | ClickLock bool int
  | Reload

text \<open>
  One step of the page. A click reaches its handler only when the control is rendered
  and enabled in the current state; a callback or a response only when it is pending
  (the index picks which one). A reload starts the component afresh and drops what was
  pending; \<open>localStorage\<close> and the server's files stay.
\<close>

definition step :: "(string \<Rightarrow> string \<Rightarrow> bool) \<Rightarrow> sys \<Rightarrow> action \<Rightarrow> sys" where
  "step bc s a =
     (case a of
        ModelsLoaded loaded \<Rightarrow>
          (if loaded
           then s\<lparr>page := (page s)\<lparr>modelsLoaded := True,
                                   statusMessage := ''Models loaded. Ready to scan.''\<rparr>\<rparr>
           else s\<lparr>page := (page s)\<lparr>statusMessage :=
                  ''Error loading face recognition models. Please check /public/models directory.''\<rparr>\<rparr>)
      | PermissionsQueried cam mic \<Rightarrow>
          s\<lparr>page := (page s)\<lparr>cameraPermission := Some cam, micPermission := Some mic\<rparr>\<rparr>
      | ClickGrant res \<Rightarrow>
          (if cameraPermission (page s) \<noteq> Some True \<or> micPermission (page s) \<noteq> Some True
           then s\<lparr>page := requestPermissions res (page s)\<rparr> else s)
      | ClickUnlock res \<Rightarrow>
          (if safeState (page s) = Locked \<and> modelsLoaded (page s)
              \<and> cameraPermission (page s) = Some True
           then handleUnlock res s else s)
      | ScanTimer res now \<Rightarrow>
          (if scanTimers s > 0 then scanCallback res now (s\<lparr>scanTimers := scanTimers s - 1\<rparr>)
           else s)
      | RecognizeResponse i \<Rightarrow>
          (if i < length (recognizeCalls s)
           then recognizeResponse (recognizeCalls s ! i)
                  (s\<lparr>recognizeCalls := removeAt i (recognizeCalls s)\<rparr>)
           else s)
      | TypePin v \<Rightarrow>
          (if safeState (page s) = Unlocking then s\<lparr>page := (page s)\<lparr>pin := digitsOnly v\<rparr>\<rparr>
           else s)
      | ClickVerify now \<Rightarrow>
          (if safeState (page s) = Unlocking
              \<and> \<not> (pin (page s) = [] \<or> length (pin (page s)) < 4)
           then verifyOnClick bc now s else s)
      | VerifyResponse i \<Rightarrow>
          (if i < length (verifyCalls s)
           then verifyResponse (fst (verifyCalls s ! i)) (snd (verifyCalls s ! i))
                  (s\<lparr>verifyCalls := removeAt i (verifyCalls s)\<rparr>)
           else s)
      | RecordingTimer i hasAudio now \<Rightarrow>
          (if i < length (recordingTimers s)
           then recordingCallback (recordingTimers s ! i) hasAudio now
                  (s\<lparr>recordingTimers := removeAt i (recordingTimers s)\<rparr>)
           else s)
      | ClickLock reached now \<Rightarrow>
          (if safeState (page s) = Unlocked then handleLock reached now s else s)
      | Reload \<Rightarrow>
          s\<lparr>page := initialPage, scanTimers := 0, recognizeCalls := [], verifyCalls := [],
            recordingTimers := []\<rparr>)"

definition run :: "(string \<Rightarrow> string \<Rightarrow> bool) \<Rightarrow> sys \<Rightarrow> action list \<Rightarrow> sys" where
  "run bc s acts = foldl (step bc) s acts"

section \<open>Specification predicates and example inputs\<close>

text \<open>The writes to the face store, for stating what every store built by them
  satisfies.\<close>

datatype face_op = Save int string descriptor "string option" | Delete string

fun applyFaceOps :: "data_dir \<Rightarrow> face_op list \<Rightarrow> data_dir" where
  "applyFaceOps d [] = d"
| "applyFaceOps d (Save now userId dsc img # ops) =
     applyFaceOps (saveFaceData_storage now d userId dsc img) ops"
| "applyFaceOps d (Delete userId # ops) = applyFaceOps (fst (deleteFaceData d userId)) ops"

text \<open>A face store with two users.\<close>

definition ex_faces :: data_dir where
  "ex_faces = \<lparr>USERS_FILE = [], EVENTS_FILE = [],
     FACES_FILE = [\<lparr>f_userId = ''alice'', f_descriptor = [1/10, 2/10], f_image = None, f_createdAt = 1000\<rparr>,
                   \<lparr>f_userId = ''bob'', f_descriptor = [5/10, 5/10], f_image = None, f_createdAt = 2000\<rparr>]\<rparr>"

text \<open>An event log of three events, stored out of order.\<close>

definition ev :: "int \<Rightarrow> string \<Rightarrow> Event" where
  "ev t ty = \<lparr>e_id = t, e_type = ty, e_userId = None, e_userName = None, e_timestamp = t,
              e_metadata = None\<rparr>"

definition ex_events :: data_dir where
  "ex_events = \<lparr>USERS_FILE = [], EVENTS_FILE = [ev 1000 ''lock'', ev 3000 ''unlock'', ev 2000 ''setup''],
                FACES_FILE = []\<rparr>"

text \<open>What the scan over the stored faces has to return for a distance function
  \<open>\<delta>\<close>: nothing when no face is below the threshold, else the first face of least
  distance.\<close>

definition bestOf :: "(descriptor \<Rightarrow> real) \<Rightarrow> FaceData list \<Rightarrow> Match option \<Rightarrow> bool" where
  "bestOf \<delta> fs r =
     (case r of
        None \<Rightarrow> (\<forall>f\<in>set fs. \<not> \<delta> (f_descriptor f) < threshold)
      | Some m \<Rightarrow>
          (\<exists>i<length fs.
              m = \<lparr>m_userId = f_userId (fs ! i), m_distance = \<delta> (f_descriptor (fs ! i))\<rparr>
            \<and> \<delta> (f_descriptor (fs ! i)) < threshold
            \<and> (\<forall>j<length fs. \<delta> (f_descriptor (fs ! i)) \<le> \<delta> (f_descriptor (fs ! j)))
            \<and> (\<forall>j<i. \<delta> (f_descriptor (fs ! i)) < \<delta> (f_descriptor (fs ! j)))))"

text \<open>A gallery of four faces with one-dimensional descriptors; for the query
  \<open>[0]\<close> the third and the fourth are tied at the least distance.\<close>

definition face :: "string \<Rightarrow> descriptor \<Rightarrow> FaceData" where
  "face u dsc = \<lparr>f_userId = u, f_descriptor = dsc, f_image = None, f_createdAt = 0\<rparr>"



text \<open>Feeding a sequence of accelerometer samples to the smoother, one call of
  \<open>smoothAccelerometer\<close> per sample, keeping the buffers between the calls.\<close>

fun smoothAll :: "AccelBuffer \<Rightarrow> (real \<times> real \<times> real) list \<Rightarrow> AccelBuffer" where
  "smoothAll buf [] = buf"
| "smoothAll buf ((x, y, z) # rest) = smoothAll (fst (smoothAccelerometer buf x y z)) rest"

text \<open>The last \<open>k\<close> elements of a list (all of it when it is shorter).\<close>

definition lastN :: "nat \<Rightarrow> 'a list \<Rightarrow> 'a list" where
  "lastN k xs = drop (length xs - k) xs"

text \<open>A request that logs a \<open>movement_detected\<close> event.\<close>

definition isMovement :: "post \<Rightarrow> bool" where
  "isMovement p = (case p of PostEvent type md \<Rightarrow> type = ''movement_detected'')"

text \<open>A sensor sample from its six axes.\<close>

definition sample :: "real \<Rightarrow> real \<Rightarrow> real \<Rightarrow> real \<Rightarrow> real \<Rightarrow> real \<Rightarrow> SensorData" where
  "sample ax ay az gx gy gz =
     \<lparr>accelerometer = \<lparr>vx = ax, vy = ay, vz = az\<rparr>, gyroscope = \<lparr>vx = gx, vy = gy, vz = gz\<rparr>,
      timestamp = 0\<rparr>"

text \<open>Three messages, one from each producer, two seconds and six seconds after
  the first.\<close>

definition ex_feed :: "(int \<times> message) list" where
  "ex_feed = [(10000, SocketIO (sample 6 0 0 0 0 0)),
              (12000, GyroWS (Some [3, 0, 0])),
              (16000, AccelWS (Some [0, 7, 0]))]"

text \<open>The open command of the actuator: the angle 90.\<close>

definition isOpen :: "io \<Rightarrow> bool" where
  "isOpen x = (case x of ActuatorFetch base angle \<Rightarrow> angle = 90 | _ \<Rightarrow> False)"

text \<open>A write to the item \<open>recognizedUserId\<close> of \<open>localStorage\<close>.\<close>

definition isStorage :: "io \<Rightarrow> bool" where
  "isStorage x = (case x of SetItem u \<Rightarrow> True | RemoveItem \<Rightarrow> True | _ \<Rightarrow> False)"

text \<open>An exchange of the log is what the route answers to that request in some
  state of the server; a submitted PIN has at least four characters.\<close>

definition genuine :: "(string \<Rightarrow> string \<Rightarrow> bool) \<Rightarrow> io \<Rightarrow> bool" where
  "genuine bc x =
     (case x of
        RecognizeExchange dsc r \<Rightarrow>
          (\<exists>now d. r = fst (recognize_POST now d (Some \<lparr>q_descriptor = Some dsc\<rparr>)))
      | VerifyPinExchange u p r \<Rightarrow>
          4 \<le> length p
          \<and> (\<exists>now d. r = fst (verify_pin_POST bc now d (Some \<lparr>q_userId = Some u, q_pin = Some p\<rparr>)))
      | _ \<Rightarrow> True)"

text \<open>What the page's own bookkeeping guarantees, read off a log. \<open>faceOK\<close>: a
  recognition was answered ok for the user. \<open>idStored\<close>: after such a recognition the
  user's id was written to the item \<open>recognizedUserId\<close> of \<open>localStorage\<close>, and the
  item has not been written since. The item outlives a reload of the page and a failed
  face scan, so this is a fact about the stored item, not about one unlock attempt.
  \<open>pinOK\<close>: a PIN verification for the user was sent while the item held that id, and
  answered ok. \<open>voiceOK\<close>: after it a recording found audio.\<close>

definition faceOK :: "string \<Rightarrow> io list \<Rightarrow> bool" where
  "faceOK u tr = (\<exists>dsc r. ok r \<and> resp_userId r = u \<and> RecognizeExchange dsc r \<in> set tr)"

definition idStored :: "string \<Rightarrow> io list \<Rightarrow> bool" where
  "idStored u tr =
     (\<exists>a dsc r b c. tr = a @ RecognizeExchange dsc r # b @ SetItem u # c
        \<and> ok r \<and> resp_userId r = u \<and> (\<forall>x\<in>set c. \<not> isStorage x))"

definition pinOK :: "string \<Rightarrow> io list \<Rightarrow> bool" where
  "pinOK u tr =
     (\<exists>pre p r' post. tr = pre @ VerifyPinExchange u p r' # post \<and> ok r' \<and> idStored u pre)"

definition voiceOK :: "io list \<Rightarrow> bool" where
  "voiceOK tr =
     (\<exists>u pre p r' mid post.
        tr = pre @ VerifyPinExchange u p r' # mid @ Recording True # post
        \<and> ok r' \<and> idStored u pre)"

text \<open>Every open command of the log comes after a stored id, an ok PIN verification
  for it and a recording with audio.\<close>

definition guarded :: "io list \<Rightarrow> bool" where
  "guarded tr = (\<forall>k<length tr. isOpen (tr ! k) \<longrightarrow> voiceOK (take k tr))"

text \<open>The invariant of the page: whatever is stored or pending has the log entries
  it stands for behind it.\<close>

definition inv :: "(string \<Rightarrow> string \<Rightarrow> bool) \<Rightarrow> sys \<Rightarrow> bool" where
  "inv bc s =
     ((\<forall>u. recognizedUserId s = Some u \<longrightarrow> idStored u (io_log s))
    \<and> (\<forall>r\<in>set (recognizeCalls s). ok r \<longrightarrow> faceOK (resp_userId r) (io_log s))
    \<and> (\<forall>c\<in>set (verifyCalls s). ok (snd c) \<longrightarrow> pinOK (fst c) (io_log s))
    \<and> (\<forall>u\<in>set (recordingTimers s). pinOK u (io_log s))
    \<and> guarded (io_log s)
    \<and> (\<forall>x\<in>set (io_log s). genuine bc x))"

text \<open>A server with one enrolled user.\<close>

definition ex_store :: data_dir where
  "ex_store =
     \<lparr>USERS_FILE = [\<lparr>u_id = ''alice'', u_name = ''Alice'', u_email = ''alice@safe.local'',
                      u_passwordHash = ''x'', u_isAdmin = False, u_faceDescriptor = Some [1 / 10],
                      u_voicePhrase = Some ''open sesame'', u_pinHash = Some ''h:4321'',
                      u_createdAt = 100\<rparr>],
      EVENTS_FILE = [],
      FACES_FILE = [\<lparr>f_userId = ''alice'', f_descriptor = [1 / 10], f_image = None,
                      f_createdAt = 100\<rparr>]\<rparr>"

text \<open>A stand-in for \<open>bcrypt.compare\<close> in the examples: the hash of a PIN is the PIN
  after the prefix \<open>h:\<close>.\<close>

definition ex_bc :: "string \<Rightarrow> string \<Rightarrow> bool" where
  "ex_bc p h = (h = ''h:'' @ p)"

text \<open>The page on that server, freshly loaded, then with models and permissions
  ready; a successful unlock.\<close>

definition ex_sys :: sys where
  "ex_sys = initialSys (Some ''http://esp32.local/servo?angle='') ex_store"

definition ex_ready :: sys where
  "ex_ready = run ex_bc ex_sys [ModelsLoaded True, PermissionsQueried True True]"

definition ex_unlock :: "action list" where
  "ex_unlock = [ClickUnlock Granted, ScanTimer (Detected [1 / 10]) 1000, RecognizeResponse 0,
                TypePin ''4321'', ClickVerify 2000, VerifyResponse 0, RecordingTimer 0 True 5000]"

definition ex_acts :: "action list" where
  "ex_acts = [ModelsLoaded True, PermissionsQueried True True] @ ex_unlock"

text \<open>A page waiting for the PIN with two digits typed.\<close>

definition ex_short :: sys where
  "ex_short = ex_ready\<lparr>page := (page ex_ready)\<lparr>safeState := Unlocking, pin := ''12''\<rparr>,
                       recognizedUserId := Some ''alice''\<rparr>"


text \<open>A run in which the face stage of the current page load fails. First load: the
  face is recognised and the id is stored; the page is then reloaded. Second load: the
  user clicks unlock, types the PIN and clicks verify while the scan timer is pending;
  the PIN is verified; the scan then finds no face. Last, the recording timer fires
  with audio.\<close>

definition ex_first_load :: "action list" where
  "ex_first_load = [ModelsLoaded True, PermissionsQueried True True, ClickUnlock Granted,
                    ScanTimer (Detected [1 / 10]) 1000, RecognizeResponse 0]"

definition ex_second_load :: "action list" where
  "ex_second_load = [Reload, ModelsLoaded True, PermissionsQueried True True, ClickUnlock Granted,
                     TypePin ''4321'', ClickVerify 2000, VerifyResponse 0, ScanTimer NoFace 2500]"

definition ex_voice :: "action list" where
  "ex_voice = [RecordingTimer 0 True 5000]"

section \<open>Verification\<close>

subsection \<open>The face store\<close>

lemma findIndex_Some:
  "findIndex P xs = Some i \<Longrightarrow> i < length xs \<and> P (xs ! i) \<and> (\<forall>j<i. \<not> P (xs ! j))"
proof (induction xs arbitrary: i)
  case Nil
  then show ?case by simp
next
  case (Cons x xs)
  show ?case
  proof (cases "P x")
    case True
    with Cons.prems show ?thesis by simp
  next
    case False
    with Cons.prems obtain k where k: "findIndex P xs = Some k" "i = Suc k"
      by (auto split: option.splits)
    from Cons.IH[OF k(1)] False k(2) show ?thesis
      by (auto simp: nth_Cons split: nat.splits)
  qed
qed

lemma findIndex_None: "findIndex P xs = None \<longleftrightarrow> (\<forall>x\<in>set xs. \<not> P x)"
  by (induction xs) (auto split: option.splits)

lemma FACES_updateUser: "FACES_FILE (fst (updateUser d i f)) = FACES_FILE d"
  by (simp add: updateUser_def Let_def split: option.splits)

lemma EVENTS_updateUser: "EVENTS_FILE (fst (updateUser d i f)) = EVENTS_FILE d"
  by (simp add: updateUser_def Let_def split: option.splits)

lemma getFaceData_save:
  "getFaceData (saveFaceData_storage now d userId descriptor img) =
     (let fd = \<lparr>f_userId = userId, f_descriptor = descriptor, f_image = img, f_createdAt = now\<rparr>
      in case findIndex (\<lambda>f. f_userId f = userId) (getFaceData d) of
           Some i \<Rightarrow> (getFaceData d)[i := fd]
         | None \<Rightarrow> getFaceData d @ [fd])"
  by (simp add: saveFaceData_storage_def getFaceData_def Let_def FACES_updateUser split: option.splits)

lemma ids_save_existing:
  assumes "findIndex (\<lambda>f. f_userId f = userId) fs = Some i"
  shows "map f_userId (fs[i := \<lparr>f_userId = userId, f_descriptor = dsc, f_image = img, f_createdAt = now\<rparr>]) = map f_userId fs"
proof -
  from findIndex_Some[OF assms] have "i < length fs" "f_userId (fs ! i) = userId" by auto
  then show ?thesis by (simp add: map_update list_update_same_conv)
qed

lemma distinct_save:
  assumes "distinct (map f_userId (getFaceData d))"
  shows "distinct (map f_userId (getFaceData (saveFaceData_storage now d userId dsc img)))"
proof (cases "findIndex (\<lambda>f. f_userId f = userId) (getFaceData d)")
  case None
  then have "userId \<notin> f_userId ` set (getFaceData d)" by (auto simp: findIndex_None)
  with assms None show ?thesis by (simp add: getFaceData_save)
next
  case (Some i)
  with assms show ?thesis by (simp add: getFaceData_save ids_save_existing)
qed

lemma distinct_delete:
  assumes "distinct (map f_userId (getFaceData d))"
  shows "distinct (map f_userId (getFaceData (fst (deleteFaceData d userId))))"
  using assms by (simp add: deleteFaceData_def getFaceData_def Let_def distinct_map_filter)

lemma mem_after_save:
  "userId \<in> f_userId ` set (getFaceData (saveFaceData_storage now d userId dsc img))"
proof (cases "findIndex (\<lambda>f. f_userId f = userId) (getFaceData d)")
  case None
  then show ?thesis by (simp add: getFaceData_save)
next
  case (Some i)
  from findIndex_Some[OF Some] have "i < length (getFaceData d)" by simp
  then have "userId \<in> set (map f_userId (getFaceData d))"
    using findIndex_Some[OF Some] by (metis length_map nth_map nth_mem)
  with Some show ?thesis by (simp add: getFaceData_save ids_save_existing[OF Some] flip: set_map)
qed

lemma count_distinct:
  "distinct (map f xs) \<Longrightarrow> k \<in> f ` set xs \<Longrightarrow> length (filter (\<lambda>x. f x = k) xs) = 1"
proof (induction xs)
  case Nil then show ?case by simp
next
  case (Cons x xs)
  show ?case
  proof (cases "f x = k")
    case True
    with Cons.prems have "f x \<notin> f ` set xs" by simp
    then have "\<forall>y\<in>set xs. f y \<noteq> k" unfolding True[symmetric] by (metis imageI)
    then have "filter (\<lambda>x. f x = k) xs = []" by (simp add: filter_empty_conv)
    with True show ?thesis by simp
  next
    case False
    with Cons show ?thesis by auto
  qed
qed

lemma distinct_applyFaceOps:
  "distinct (map f_userId (getFaceData d)) \<Longrightarrow>
   distinct (map f_userId (getFaceData (applyFaceOps d ops)))"
  by (induction d ops rule: applyFaceOps.induct) (simp_all add: distinct_save distinct_delete)

lemma distinct_from_empty:
  "FACES_FILE d = [] \<Longrightarrow> distinct (map f_userId (getFaceData (applyFaceOps d ops)))"
  by (rule distinct_applyFaceOps) (simp add: getFaceData_def)

lemma find_update_first:
  "findIndex P xs = Some i \<Longrightarrow> P y \<Longrightarrow> find P (xs[i := y]) = Some y"
proof (induction xs arbitrary: i)
  case Nil then show ?case by simp
next
  case (Cons x xs)
  then show ?case by (cases "P x") (auto split: option.splits)
qed

lemma findIndex_mem:
  "k \<in> f ` set xs \<Longrightarrow> \<exists>i. findIndex (\<lambda>x. f x = k) xs = Some i"
  by (cases "findIndex (\<lambda>x. f x = k) xs") (auto simp: findIndex_None)

text \<open>
  The first hypothesis below, one template per user, holds of every face store that
  \<open>saveFaceData\<close> and \<open>deleteFaceData\<close> build from the empty one
  (\<open>distinct_from_empty\<close>).
\<close>

text \<open>
  Claim C9. In a face store with one template per user, saving a face for a user who
  already has a template, whatever the old and the new descriptor are, overwrites that
  template where it stands: the number of stored templates and the order of their user
  ids are unchanged, exactly one entry has that user id, and it holds the new descriptor.
\<close>

theorem C9_reregister_overwrites:
  assumes "distinct (map f_userId (getFaceData d))"
    and "userId \<in> f_userId ` set (getFaceData d)"
  shows "(let d' = saveFaceData_storage now d userId descriptor img in
          length (getFaceData d') = length (getFaceData d)
        \<and> map f_userId (getFaceData d') = map f_userId (getFaceData d)
        \<and> length (filter (\<lambda>f. f_userId f = userId) (getFaceData d')) = 1
        \<and> find (\<lambda>f. f_userId f = userId) (getFaceData d') =
            Some \<lparr>f_userId = userId, f_descriptor = descriptor, f_image = img, f_createdAt = now\<rparr>)"
proof -
  let ?fd = "\<lparr>f_userId = userId, f_descriptor = descriptor, f_image = img, f_createdAt = now\<rparr>"
  from findIndex_mem[OF assms(2)] obtain i
    where i: "findIndex (\<lambda>f. f_userId f = userId) (getFaceData d) = Some i" by blast
  then have faces: "getFaceData (saveFaceData_storage now d userId descriptor img) = (getFaceData d)[i := ?fd]"
    by (simp add: getFaceData_save)
  have ids: "map f_userId ((getFaceData d)[i := ?fd]) = map f_userId (getFaceData d)"
    by (rule ids_save_existing[OF i])
  have "distinct (map f_userId ((getFaceData d)[i := ?fd]))"
    using assms(1) ids by simp
  moreover have "userId \<in> f_userId ` set ((getFaceData d)[i := ?fd])"
    using assms(2) ids by (metis set_map)
  ultimately have cnt: "length (filter (\<lambda>f. f_userId f = userId) ((getFaceData d)[i := ?fd])) = 1"
    by (rule count_distinct)
  have fnd: "find (\<lambda>f. f_userId f = userId) ((getFaceData d)[i := ?fd]) = Some ?fd"
    by (rule find_update_first[OF i]) simp
  show ?thesis
    unfolding Let_def faces using ids cnt fnd by simp
qed

theorem C9_reregister_overwrites_witness:
  "distinct (map f_userId (getFaceData ex_faces)) \<and> ''bob'' \<in> f_userId ` set (getFaceData ex_faces)
   \<and> length (getFaceData (saveFaceData_storage 3000 ex_faces ''bob'' [7/10, 7/10] None)) = 2
   \<and> length (filter (\<lambda>f. f_userId f = ''bob'') (getFaceData (saveFaceData_storage 3000 ex_faces ''bob'' [7/10, 7/10] None))) = 1"
proof -
  have h1: "distinct (map f_userId (getFaceData ex_faces))"
    by (simp add: ex_faces_def getFaceData_def)
  have h2: "''bob'' \<in> f_userId ` set (getFaceData ex_faces)"
    by (simp add: ex_faces_def getFaceData_def)
  have len: "length (getFaceData ex_faces) = 2" by (simp add: ex_faces_def getFaceData_def)
  from C9_reregister_overwrites[OF h1 h2, of 3000 "[7/10, 7/10]" None] h1 h2 len
  show ?thesis by (simp add: Let_def)
qed

subsection \<open>The event log\<close>

lemma newest_first_sort:
  "sorted_wrt (\<lambda>a b. e_timestamp b \<le> e_timestamp a) (sort_key (\<lambda>e. - e_timestamp e) es)"
proof -
  have "sorted (map (\<lambda>e. - e_timestamp e) (sort_key (\<lambda>e. - e_timestamp e) es))"
    by (rule sorted_sort_key)
  then show ?thesis by (simp add: sorted_map)
qed

lemma getEvents_None: "getEvents d None = sort_key (\<lambda>e. - e_timestamp e) (EVENTS_FILE d)"
  by (simp add: getEvents_def)

lemma getEvents_take:
  "\<exists>k. getEvents d limit = take k (getEvents d None)"
proof (cases limit)
  case None
  then show ?thesis by (metis take_all order_refl)
next
  case (Some l)
  show ?thesis
  proof (cases "l = 0")
    case True
    with Some have "getEvents d limit = getEvents d None" by (simp add: getEvents_def)
    then show ?thesis by (metis take_all order_refl)
  next
    case False
    with Some show ?thesis by (cases "l < 0") (auto simp: getEvents_def slice0_def Let_def)
  qed
qed

lemma getEvents_sorted:
  "sorted_wrt (\<lambda>a b. e_timestamp b \<le> e_timestamp a) (getEvents d limit)"
proof -
  obtain k where "getEvents d limit = take k (getEvents d None)"
    using getEvents_take by blast
  then show ?thesis
    by (simp add: getEvents_None newest_first_sort sorted_wrt_take)
qed

lemma getEvents_positive:
  assumes "0 < n"
  shows "getEvents d (Some n) = take (nat n) (getEvents d None)"
  using assms by (simp add: getEvents_def slice0_def)

lemma take_drop_newer:
  assumes "sorted_wrt (\<lambda>a b. e_timestamp b \<le> e_timestamp a) xs"
  shows "\<forall>e\<in>set (take k xs). \<forall>e'\<in>set (drop k xs). e_timestamp e' \<le> e_timestamp e"
proof -
  from assms have "sorted_wrt (\<lambda>a b. e_timestamp b \<le> e_timestamp a) (take k xs @ drop k xs)"
    by simp
  then show ?thesis unfolding sorted_wrt_append by blast
qed

text \<open>
  Claim C10, as amended. \<open>getEvents\<close> always returns the events sorted by timestamp,
  newest first, whatever their stored order; without a limit it returns all of them.
  With a limit \<open>n > 0\<close> the result is the first \<open>min n total\<close> events of that sorted
  list, so no omitted event is newer than a returned one. A limit of 0 is treated as no
  limit: all events are returned.
\<close>

theorem C10_getEvents_newest_first:
  "sorted_wrt (\<lambda>a b. e_timestamp b \<le> e_timestamp a) (getEvents d limit)
   \<and> mset (getEvents d None) = mset (EVENTS_FILE d)
   \<and> getEvents d (Some 0) = getEvents d None
   \<and> (\<forall>n>0. getEvents d (Some n) = take (nat n) (getEvents d None)
            \<and> length (getEvents d (Some n)) = min (nat n) (length (EVENTS_FILE d))
            \<and> (\<forall>e\<in>set (getEvents d (Some n)). \<forall>e'\<in>set (drop (nat n) (getEvents d None)).
                  e_timestamp e' \<le> e_timestamp e))"
proof -
  have a: "sorted_wrt (\<lambda>a b. e_timestamp b \<le> e_timestamp a) (getEvents d limit)"
    by (rule getEvents_sorted)
  have b: "mset (getEvents d None) = mset (EVENTS_FILE d)"
    by (simp add: getEvents_None)
  have c: "getEvents d (Some 0) = getEvents d None"
    by (simp add: getEvents_def)
  have e: "\<forall>n>0. getEvents d (Some n) = take (nat n) (getEvents d None)
            \<and> length (getEvents d (Some n)) = min (nat n) (length (EVENTS_FILE d))
            \<and> (\<forall>e\<in>set (getEvents d (Some n)). \<forall>e'\<in>set (drop (nat n) (getEvents d None)).
                  e_timestamp e' \<le> e_timestamp e)"
  proof (intro allI impI)
    fix n :: int
    assume n: "0 < n"
    have t: "getEvents d (Some n) = take (nat n) (getEvents d None)"
      by (rule getEvents_positive[OF n])
    have l: "length (getEvents d (Some n)) = min (nat n) (length (EVENTS_FILE d))"
      unfolding t by (simp add: getEvents_None min.commute)
    have o: "\<forall>e\<in>set (getEvents d (Some n)). \<forall>e'\<in>set (drop (nat n) (getEvents d None)).
                  e_timestamp e' \<le> e_timestamp e"
      unfolding t by (rule take_drop_newer[OF getEvents_sorted])
    from t l o show "getEvents d (Some n) = take (nat n) (getEvents d None)
            \<and> length (getEvents d (Some n)) = min (nat n) (length (EVENTS_FILE d))
            \<and> (\<forall>e\<in>set (getEvents d (Some n)). \<forall>e'\<in>set (drop (nat n) (getEvents d None)).
                  e_timestamp e' \<le> e_timestamp e)" by blast
  qed
  from a b c e show ?thesis by blast
qed

text \<open>
  The claim as first stated ("with a limit the result is the \<open>min limit total\<close> most
  recent events") fails for the limit 0, which \<open>GET /api/events?limit=0\<close> passes on:
  three events are stored and all three are returned.
\<close>

theorem C10_counterexample:
  "length (getEvents ex_events (Some 0)) = 3 \<and> min 0 (length (EVENTS_FILE ex_events)) = 0"
  by (simp add: getEvents_def ex_events_def ev_def)

theorem C10_getEvents_newest_first_witness:
  "(0::int) < 2 \<and> getEvents ex_events (Some 2) = [ev 3000 ''unlock'', ev 2000 ''setup'']
   \<and> length (getEvents ex_events (Some 2)) = min (nat 2) (length (EVENTS_FILE ex_events))"
proof -
  have s: "getEvents ex_events None = [ev 3000 ''unlock'', ev 2000 ''setup'', ev 1000 ''lock'']"
    by (simp add: getEvents_def ex_events_def ev_def)
  have h: "(0::int) < 2" by simp
  from C10_getEvents_newest_first[of ex_events None] have
    "\<forall>n>0. getEvents ex_events (Some n) = take (nat n) (getEvents ex_events None)
       \<and> length (getEvents ex_events (Some n)) = min (nat n) (length (EVENTS_FILE ex_events))"
    by blast
  with h have "getEvents ex_events (Some 2) = take (nat 2) (getEvents ex_events None)
       \<and> length (getEvents ex_events (Some 2)) = min (nat 2) (length (EVENTS_FILE ex_events))"
    by blast
  moreover have "length (EVENTS_FILE ex_events) = 3" by (simp add: ex_events_def)
  ultimately show ?thesis by (simp add: s)
qed

subsection \<open>The face matcher\<close>

lemma scanFaces_append:
  "scanFaces \<delta> (xs @ ys) acc = scanFaces \<delta> ys (scanFaces \<delta> xs acc)"
  by (induction xs arbitrary: acc) (simp_all add: Let_def)

lemma bestOf_snoc:
  assumes "bestOf \<delta> fs r"
  shows "bestOf \<delta> (fs @ [f]) (scanFaces \<delta> [f] r)"
proof (cases r)
  case None
  with assms have none: "\<forall>g\<in>set fs. \<not> \<delta> (f_descriptor g) < threshold"
    by (simp add: bestOf_def)
  show ?thesis
  proof (cases "\<delta> (f_descriptor f) < threshold")
    case True
    have "\<forall>j<length fs. \<delta> (f_descriptor f) < \<delta> (f_descriptor (fs ! j))"
      using none True by (metis less_le_trans not_less nth_mem)
    then have "\<forall>j<length (fs @ [f]). \<delta> (f_descriptor f) \<le> \<delta> (f_descriptor ((fs @ [f]) ! j))"
      by (auto simp: nth_append less_Suc_eq)
    then show ?thesis using None True \<open>\<forall>j<length fs. \<delta> (f_descriptor f) < \<delta> (f_descriptor (fs ! j))\<close>
      unfolding bestOf_def
      by (auto simp: Let_def nth_append intro!: exI[of _ "length fs"])
  next
    case False
    with None none show ?thesis by (simp add: bestOf_def Let_def)
  qed
next
  case (Some m)
  with assms obtain i where i: "i < length fs"
    "m = \<lparr>m_userId = f_userId (fs ! i), m_distance = \<delta> (f_descriptor (fs ! i))\<rparr>"
    "\<delta> (f_descriptor (fs ! i)) < threshold"
    "\<forall>j<length fs. \<delta> (f_descriptor (fs ! i)) \<le> \<delta> (f_descriptor (fs ! j))"
    "\<forall>j<i. \<delta> (f_descriptor (fs ! i)) < \<delta> (f_descriptor (fs ! j))"
    by (auto simp: bestOf_def)
  show ?thesis
  proof (cases "\<delta> (f_descriptor f) < threshold \<and> \<delta> (f_descriptor f) < m_distance m")
    case True
    then have lt: "\<delta> (f_descriptor f) < \<delta> (f_descriptor (fs ! i))" using i(2) by simp
    have all: "\<forall>j<length fs. \<delta> (f_descriptor f) < \<delta> (f_descriptor (fs ! j))"
      using lt i(4) by (meson less_le_trans)
    have res: "scanFaces \<delta> [f] r = Some \<lparr>m_userId = f_userId f, m_distance = \<delta> (f_descriptor f)\<rparr>"
      using True Some by (simp add: Let_def)
    show ?thesis unfolding res bestOf_def using True all
      by (auto simp: nth_append less_Suc_eq intro!: exI[of _ "length fs"])
  next
    case False
    then have res: "scanFaces \<delta> [f] r = r" using Some by (auto simp: Let_def)
    have ge: "\<delta> (f_descriptor (fs ! i)) \<le> \<delta> (f_descriptor f)"
      using False i(2,3) by auto
    have "bestOf \<delta> (fs @ [f]) (Some m)"
      unfolding bestOf_def using i ge
      by (auto simp: nth_append less_Suc_eq intro!: exI[of _ i])
    then show ?thesis unfolding res unfolding Some .
  qed
qed

lemma bestOf_scanFaces: "bestOf \<delta> fs (scanFaces \<delta> fs None)"
proof (induction fs rule: rev_induct)
  case Nil
  show ?case by (simp add: bestOf_def)
next
  case (snoc f fs)
  from bestOf_snoc[OF snoc.IH, of f] show ?case by (simp add: scanFaces_append)
qed

lemma sumSquares_acc: "sumSquares a b s = s + sumSquares a b 0"
proof (induction a arbitrary: b s)
  case Nil
  show ?case by simp
next
  case (Cons x xs)
  show ?case
  proof (cases b)
    case Nil
    then show ?thesis by simp
  next
    case (Cons y ys)
    have "sumSquares xs ys (s + (x - y) * (x - y)) = s + (x - y) * (x - y) + sumSquares xs ys 0"
      by (rule Cons.IH)
    moreover have "sumSquares xs ys (0 + (x - y) * (x - y)) = 0 + (x - y) * (x - y) + sumSquares xs ys 0"
      by (rule Cons.IH)
    ultimately show ?thesis using Cons by simp
  qed
qed

lemma sumSquares_sum:
  "sumSquares a b 0 = (\<Sum>i<min (length a) (length b). (a ! i - b ! i)\<^sup>2)"
proof (induction a arbitrary: b)
  case Nil
  show ?case by simp
next
  case (Cons x xs)
  show ?case
  proof (cases b)
    case Nil
    then show ?thesis by simp
  next
    case (Cons y ys)
    have "sumSquares (x # xs) (y # ys) 0 = (x - y)\<^sup>2 + sumSquares xs ys 0"
      using sumSquares_acc[of xs ys "(x - y) * (x - y)"] by (simp add: power2_eq_square)
    also have "\<dots> = (x - y)\<^sup>2 + (\<Sum>i<min (length xs) (length ys). (xs ! i - ys ! i)\<^sup>2)"
      by (simp add: Cons.IH)
    also have "\<dots> = (\<Sum>i<Suc (min (length xs) (length ys)). ((x # xs) ! i - (y # ys) ! i)\<^sup>2)"
      unfolding sum.lessThan_Suc_shift by simp
    finally show ?thesis using Cons by simp
  qed
qed

lemma distance_euclidean:
  "distance a b = sqrt (\<Sum>i<min (length a) (length b). (a ! i - b ! i)\<^sup>2)"
  by (simp add: distance_def sumSquares_sum)

lemma distance_single: "distance [a] [b] = \<bar>a - b\<bar>"
  by (simp add: distance_def)



text \<open>
  \<open>recognizeFace\<close> of \<open>lib/face-recognition\<close>: when the library distance is defined
  on every stored descriptor, the loop is the scan of \<open>recognizeFaceFromDescriptor\<close>
  with that distance, so it selects the same way; when it throws on one of them, so
  does \<open>recognizeFace\<close>.
\<close>

lemma scanFacesLib_defined:
  "\<forall>f\<in>set fs. distTo (f_descriptor f) = Some (g (f_descriptor f)) \<Longrightarrow>
   scanFacesLib distTo fs b = Inr (scanFaces g fs b)"
  by (induction fs arbitrary: b) (simp_all add: Let_def)

lemma scanFacesLib_throws:
  "\<exists>f\<in>set fs. distTo (f_descriptor f) = None \<Longrightarrow> scanFacesLib distTo fs b = Inl DistanceThrew"
  by (induction fs arbitrary: b) (auto split: option.splits)

lemma recognizeFace_selection:
  assumes "\<forall>f\<in>set (getFaceData d). euclideanDistance q (f_descriptor f) = Some (g (f_descriptor f))"
  shows "\<exists>r. recognizeFace euclideanDistance d q = Inr r \<and> bestOf g (getFaceData d) r"
  unfolding recognizeFace_def scanFacesLib_defined[OF assms] using bestOf_scanFaces by simp

lemma recognizeFace_throws:
  assumes "\<exists>f\<in>set (getFaceData d). euclideanDistance q (f_descriptor f) = None"
  shows "recognizeFace euclideanDistance d q = Inl DistanceThrew"
  unfolding recognizeFace_def by (rule scanFacesLib_throws[OF assms])


subsection \<open>The smoother\<close>

lemma foldl_plus: "foldl (\<lambda>a b. a + b) (a :: real) xs = a + sum_list xs"
  by (induction xs arbitrary: a) simp_all

lemma average_mean: "average xs = sum_list xs / real (length xs)"
  by (simp add: average_def foldl_plus)

lemma window_step:
  "(if length (lastN 5 xs @ [x]) > 5 then tl (lastN 5 xs @ [x]) else lastN 5 xs @ [x])
     = lastN 5 (xs @ [x])"
proof (cases "length xs < 5")
  case True
  then show ?thesis by (simp add: lastN_def)
next
  case False
  then have n: "5 \<le> length xs" by simp
  then have ne: "drop (length xs - 5) xs \<noteq> []" by simp
  have "tl (drop (length xs - 5) xs @ [x]) = tl (drop (length xs - 5) xs) @ [x]"
    using ne by simp
  also have "\<dots> = drop (Suc (length xs - 5)) xs @ [x]" by (simp add: drop_Suc tl_drop)
  also have "\<dots> = drop (Suc (length xs) - 5) (xs @ [x])"
  proof -
    have "Suc (length xs) - 5 = Suc (length xs - 5)" using n by simp
    moreover have "Suc (length xs - 5) \<le> length xs" using n by simp
    ultimately show ?thesis by simp
  qed
  finally show ?thesis using n by (simp add: lastN_def)
qed

lemma smoothAll_snoc:
  "smoothAll buf (pre @ [(x, y, z)]) = fst (smoothAccelerometer (smoothAll buf pre) x y z)"
  by (induction buf pre rule: smoothAll.induct) simp_all

lemma buffers_window:
  "smoothAll (accelBufferRef initialDashboard) samples =
     \<lparr>buf_x = lastN 5 (map fst samples),
      buf_y = lastN 5 (map (fst \<circ> snd) samples),
      buf_z = lastN 5 (map (snd \<circ> snd) samples)\<rparr>"
proof (induction samples rule: rev_induct)
  case Nil
  show ?case by (simp add: initialDashboard_def lastN_def)
next
  case (snoc s samples)
  obtain x y z where s: "s = (x, y, z)" by (cases s) auto
  have len: "length (lastN 5 (map fst samples)) = length (lastN 5 (map (fst \<circ> snd) samples))"
    "length (lastN 5 (map fst samples)) = length (lastN 5 (map (snd \<circ> snd) samples))"
    by (simp_all add: lastN_def)
  have wx: "(if length (lastN 5 (map fst samples) @ [x]) > 5 then tl (lastN 5 (map fst samples) @ [x]) else lastN 5 (map fst samples) @ [x]) = lastN 5 (map fst samples @ [x])"
    by (rule window_step)
  have wy: "(if length (lastN 5 (map (fst \<circ> snd) samples) @ [y]) > 5 then tl (lastN 5 (map (fst \<circ> snd) samples) @ [y]) else lastN 5 (map (fst \<circ> snd) samples) @ [y]) = lastN 5 (map (fst \<circ> snd) samples @ [y])"
    by (rule window_step)
  have wz: "(if length (lastN 5 (map (snd \<circ> snd) samples) @ [z]) > 5 then tl (lastN 5 (map (snd \<circ> snd) samples) @ [z]) else lastN 5 (map (snd \<circ> snd) samples) @ [z]) = lastN 5 (map (snd \<circ> snd) samples @ [z])"
    by (rule window_step)
  show ?case
    unfolding s smoothAll_snoc snoc.IH
    using wx wy wz len
    by (simp add: smoothAccelerometer_def bufferSize_def Let_def comp_def split: if_splits)
qed

lemma length_lastN: "length (lastN k xs) = min k (length xs)"
  by (simp add: lastN_def)

text \<open>
  Claim C2. Start from the empty buffers of the dashboard and feed any samples \<open>pre\<close>,
  then the sample \<open>(x, y, z)\<close>, which is the \<open>n\<close>-th. The value returned for it has
  as \<open>z\<close> the arithmetic mean of the last \<open>min 5 n\<close> raw \<open>z\<close> values minus 5, and as
  \<open>x\<close> and \<open>y\<close> the plain means of the last \<open>min 5 n\<close> raw \<open>x\<close> and \<open>y\<close> values.
\<close>

theorem C2_smoothed_is_window_mean:
  "(let samples = pre @ [(x, y, z)];
        n = length samples;
        out = snd (smoothAccelerometer (smoothAll (accelBufferRef initialDashboard) pre) x y z)
    in vz out = sum_list (lastN (min 5 n) (map (snd \<circ> snd) samples)) / real (min 5 n) - 5
     \<and> vx out = sum_list (lastN (min 5 n) (map fst samples)) / real (min 5 n)
     \<and> vy out = sum_list (lastN (min 5 n) (map (fst \<circ> snd) samples)) / real (min 5 n))"
proof -
  let ?samples = "pre @ [(x, y, z)]"
  have kept: "fst (smoothAccelerometer (smoothAll (accelBufferRef initialDashboard) pre) x y z) =
     \<lparr>buf_x = lastN 5 (map fst ?samples),
      buf_y = lastN 5 (map (fst \<circ> snd) ?samples),
      buf_z = lastN 5 (map (snd \<circ> snd) ?samples)\<rparr>"
    using buffers_window[of ?samples] by (simp only: smoothAll_snoc)
  have out: "snd (smoothAccelerometer buf x y z) =
      \<lparr>vx = average (buf_x (fst (smoothAccelerometer buf x y z))),
       vy = average (buf_y (fst (smoothAccelerometer buf x y z))),
       vz = average (buf_z (fst (smoothAccelerometer buf x y z))) - 5\<rparr>" for buf
    by (simp add: smoothAccelerometer_def Let_def)
  have m: "lastN (min 5 (length xs)) xs = lastN 5 xs" for xs :: "real list"
    by (simp add: lastN_def min_def)
  have l: "min 5 (length ?samples) = length (lastN 5 (map f ?samples))" for f :: "real \<times> real \<times> real \<Rightarrow> real"
    by (simp add: length_lastN)
  show ?thesis
    unfolding Let_def out[of "smoothAll (accelBufferRef initialDashboard) pre"] kept
    using m[of "map fst ?samples"] m[of "map (fst \<circ> snd) ?samples"] m[of "map (snd \<circ> snd) ?samples"]
    by (simp add: average_mean length_lastN comp_def)
qed

subsection \<open>Theft and movement detection\<close>

lemma sqrt_gt_50: "50 < sqrt x \<longleftrightarrow> 2500 < x"
proof -
  have "sqrt 2500 = 50" by (rule real_sqrt_unique) simp_all
  then show ?thesis by (metis real_sqrt_less_iff)
qed

text \<open>
  Claim C3. For a sample whose raw accelerometer magnitude exceeds 50, the socket hub
  broadcasts a \<open>theft-alert\<close> and the dashboard posts a \<open>theft_detected\<close> event while
  handling that very sample, whatever the retained history, the state of the dashboard
  (its movement cooldown included) and the time are: neither path consults a cooldown.
\<close>

theorem C3_theft_never_debounced:
  assumes "50 < accelMagnitude data"
  shows "TheftAlert (accelMagnitude data) now \<in> set (snd (on_sensor_data now sensorDataStore data))
       \<and> PostEvent ''theft_detected'' [(''magnitude'', MNum (accelMagnitude data))]
            \<in> set (snd (handleSensorData now' s data))
       \<and> PostEvent ''theft_detected'' [(''magnitude'', MNum (accelMagnitude data))]
            \<in> set (snd (onMessage now' s (SocketIO data)))"
  using assms
  by (simp add: on_sensor_data_def handleSensorData_def onMessage_def Let_def split: prod.splits)

lemma magnitude_60: "accelMagnitude (sample 60 0 0 0 0 0) = 60"
  by (simp add: accelMagnitude_def sample_def)

theorem C3_theft_never_debounced_witness:
  "50 < accelMagnitude (sample 60 0 0 0 0 0)
   \<and> TheftAlert 60 7000 \<in> set (snd (on_sensor_data 7000 [] (sample 60 0 0 0 0 0)))
   \<and> PostEvent ''theft_detected'' [(''magnitude'', MNum 60)]
        \<in> set (snd (handleSensorData 7001 (initialDashboard\<lparr>lastMovementEventRef := 7000\<rparr>)
              (sample 60 0 0 0 0 0)))"
proof -
  have h: "50 < accelMagnitude (sample 60 0 0 0 0 0)" by (simp add: magnitude_60)
  from C3_theft_never_debounced[OF h, of 7000 "[]" 7001 "initialDashboard\<lparr>lastMovementEventRef := 7000\<rparr>"] h
  show ?thesis by (simp add: magnitude_60)
qed

lemma handle_movement:
  "filter isMovement (snd (handleSensorData now s data)) =
     (if movementExceeded data \<and> now - lastMovementEventRef s > MOVEMENT_EVENT_COOLDOWN
      then [PostEvent ''movement_detected'' (movementMetadata data)] else [])"
  by (simp add: handleSensorData_def Let_def isMovement_def split: prod.splits)

lemma handle_last:
  "lastMovementEventRef (fst (handleSensorData now s data)) =
     (if movementExceeded data \<and> now - lastMovementEventRef s > MOVEMENT_EVENT_COOLDOWN
      then now else lastMovementEventRef s)"
  by (auto simp: handleSensorData_def Let_def split: prod.splits)

lemma onMessage_cases:
  "onMessage now s msg = (s, []) \<or> (\<exists>data. onMessage now s msg = handleSensorData now s data)"
  by (cases msg) (auto simp: onMessage_def split: option.splits)

lemma onMessage_at_most_one:
  "length (filter isMovement (snd (onMessage now s msg))) \<le> 1"
  using onMessage_cases[of now s msg] by (auto simp: handle_movement)

lemma onMessage_fires:
  assumes "filter isMovement (snd (onMessage now s msg)) \<noteq> []"
  shows "now - lastMovementEventRef s > MOVEMENT_EVENT_COOLDOWN
       \<and> lastMovementEventRef (fst (onMessage now s msg)) = now"
  using onMessage_cases[of now s msg] assms
  by (auto simp: handle_movement handle_last split: if_splits)

lemma onMessage_last_mono:
  "lastMovementEventRef s \<le> lastMovementEventRef (fst (onMessage now s msg))"
  using onMessage_cases[of now s msg]
  by (auto simp: handle_last MOVEMENT_EVENT_COOLDOWN_def)

lemma feed_Cons:
  "feed s ((now, msg) # rest) =
     (fst (feed (fst (onMessage now s msg)) rest),
      snd (onMessage now s msg) # snd (feed (fst (onMessage now s msg)) rest))"
  by (simp add: Let_def split: prod.splits)

lemma length_feed: "length (snd (feed s ins)) = length ins"
proof (induction ins arbitrary: s)
  case Nil show ?case by simp
next
  case (Cons a ins)
  obtain now msg where a: "a = (now, msg)" by (cases a)
  show ?case unfolding a feed_Cons by (simp add: Cons.IH)
qed

lemma feed_fires_after:
  assumes "j < length ins" and "filter isMovement (snd (feed s ins) ! j) \<noteq> []"
  shows "fst (ins ! j) - lastMovementEventRef s > MOVEMENT_EVENT_COOLDOWN"
  using assms
proof (induction ins arbitrary: s j)
  case Nil then show ?case by simp
next
  case (Cons a ins)
  obtain now msg where a: "a = (now, msg)" by (cases a)
  show ?case
  proof (cases j)
    case 0
    with Cons.prems show ?thesis unfolding a feed_Cons
      using onMessage_fires[of now s msg] by simp
  next
    case (Suc k)
    with Cons.prems have "k < length ins"
      "filter isMovement (snd (feed (fst (onMessage now s msg)) ins) ! k) \<noteq> []"
      unfolding a feed_Cons by simp_all
    from Cons.IH[OF this]
    have "fst (ins ! k) - lastMovementEventRef (fst (onMessage now s msg)) > MOVEMENT_EVENT_COOLDOWN" .
    with onMessage_last_mono[of s now msg] Suc show ?thesis by simp
  qed
qed

lemma feed_pairwise:
  assumes "i < j" and "j < length ins"
    and "filter isMovement (snd (feed s ins) ! i) \<noteq> []"
    and "filter isMovement (snd (feed s ins) ! j) \<noteq> []"
  shows "fst (ins ! j) - fst (ins ! i) > MOVEMENT_EVENT_COOLDOWN"
  using assms
proof (induction ins arbitrary: s i j)
  case Nil then show ?case by simp
next
  case (Cons a ins)
  obtain now msg where a: "a = (now, msg)" by (cases a)
  from Cons.prems(1) obtain k where j: "j = Suc k" by (cases j) auto
  with Cons.prems have k: "k < length ins"
    and fk: "filter isMovement (snd (feed (fst (onMessage now s msg)) ins) ! k) \<noteq> []"
    unfolding a feed_Cons by simp_all
  show ?case
  proof (cases i)
    case 0
    with Cons.prems(3) have "filter isMovement (snd (onMessage now s msg)) \<noteq> []"
      unfolding a feed_Cons by simp
    then have "lastMovementEventRef (fst (onMessage now s msg)) = now"
      using onMessage_fires by blast
    with feed_fires_after[OF k fk] show ?thesis using 0 j a by simp
  next
    case (Suc i')
    with Cons.prems j have "i' < k"
      "filter isMovement (snd (feed (fst (onMessage now s msg)) ins) ! i') \<noteq> []"
      unfolding a feed_Cons by simp_all
    from Cons.IH[OF this(1) k this(2) fk] show ?thesis using Suc j by simp
  qed
qed

lemma feed_nth_at_most_one:
  "j < length ins \<Longrightarrow> length (filter isMovement (snd (feed s ins) ! j)) \<le> 1"
proof (induction ins arbitrary: s j)
  case Nil then show ?case by simp
next
  case (Cons a ins)
  obtain now msg where a: "a = (now, msg)" by (cases a)
  show ?case
  proof (cases j)
    case 0
    then show ?thesis unfolding a feed_Cons using onMessage_at_most_one by simp
  next
    case (Suc k)
    with Cons.prems Cons.IH[of k] show ?thesis unfolding a feed_Cons by simp
  qed
qed

lemma metadata_axes:
  "(\<bar>vx (accelerometer data)\<bar> > 5 \<longrightarrow> (''accelX'', MNum (vx (accelerometer data))) \<in> set (movementMetadata data))
 \<and> (\<bar>vy (accelerometer data)\<bar> > 5 \<longrightarrow> (''accelY'', MNum (vy (accelerometer data))) \<in> set (movementMetadata data))
 \<and> (\<bar>vx (gyroscope data)\<bar> > 2 \<longrightarrow> (''gyroX'', MNum (vx (gyroscope data))) \<in> set (movementMetadata data))
 \<and> (\<bar>vy (gyroscope data)\<bar> > 2 \<longrightarrow> (''gyroY'', MNum (vy (gyroscope data))) \<in> set (movementMetadata data))
 \<and> (\<bar>vz (gyroscope data)\<bar> > 2 \<longrightarrow> (''gyroZ'', MNum (vz (gyroscope data))) \<in> set (movementMetadata data))"
  by (simp add: movementMetadata_def)

text \<open>
  Claim C4. Feed any messages of the three producers to one dashboard, from any state.
  Of two messages handled at most 5000 ms apart, at most one posts a
  \<open>movement_detected\<close> event: \<open>lastMovementEventRef\<close> is the one cooldown timestamp of
  the dashboard, whichever producer or axis triggered. A posted event carries
  \<open>movementMetadata\<close>, which has an entry for every axis over its threshold.
\<close>

theorem C4_movement_cooldown:
  "(\<forall>i j. i < j \<and> j < length ins \<and> fst (ins ! j) - fst (ins ! i) \<le> 5000 \<longrightarrow>
       length (filter isMovement (snd (feed s ins) ! i))
     + length (filter isMovement (snd (feed s ins) ! j)) \<le> 1)
 \<and> (\<forall>md. PostEvent ''movement_detected'' md \<in> set (snd (handleSensorData now s0 data)) \<longrightarrow>
       md = movementMetadata data
     \<and> (\<bar>vx (accelerometer data)\<bar> > 5 \<longrightarrow> (''accelX'', MNum (vx (accelerometer data))) \<in> set md)
     \<and> (\<bar>vy (accelerometer data)\<bar> > 5 \<longrightarrow> (''accelY'', MNum (vy (accelerometer data))) \<in> set md)
     \<and> (\<bar>vx (gyroscope data)\<bar> > 2 \<longrightarrow> (''gyroX'', MNum (vx (gyroscope data))) \<in> set md)
     \<and> (\<bar>vy (gyroscope data)\<bar> > 2 \<longrightarrow> (''gyroY'', MNum (vy (gyroscope data))) \<in> set md)
     \<and> (\<bar>vz (gyroscope data)\<bar> > 2 \<longrightarrow> (''gyroZ'', MNum (vz (gyroscope data))) \<in> set md))"
proof -
  have pair: "length (filter isMovement (snd (feed s ins) ! i))
     + length (filter isMovement (snd (feed s ins) ! j)) \<le> 1"
    if "i < j" "j < length ins" "fst (ins ! j) - fst (ins ! i) \<le> 5000" for i j
  proof -
    from that have i: "i < length ins" by simp
    have "filter isMovement (snd (feed s ins) ! i) = [] \<or> filter isMovement (snd (feed s ins) ! j) = []"
      using feed_pairwise[OF that(1,2), of s] that(3) by (auto simp: MOVEMENT_EVENT_COOLDOWN_def)
    then show ?thesis
      using feed_nth_at_most_one[OF i, of s] feed_nth_at_most_one[OF that(2), of s] by auto
  qed
  have meta: "md = movementMetadata data"
    if "PostEvent ''movement_detected'' md \<in> set (snd (handleSensorData now s0 data))" for md
    using that by (auto simp: handleSensorData_def Let_def split: prod.splits if_splits)
  show ?thesis using pair meta metadata_axes[of data] by blast
qed

lemma ex_feed_posts:
  "map (filter isMovement) (snd (feed initialDashboard ex_feed)) =
     [[PostEvent ''movement_detected'' [(''accelX'', MNum 6)]],
      [],
      [PostEvent ''movement_detected'' [(''accelY'', MNum 7)]]]"
  by (simp add: ex_feed_def feed_Cons onMessage_def handle_movement handle_last
      movementExceeded_def movementMetadata_def sample_def zeroVector_def
      MOVEMENT_EVENT_COOLDOWN_def initialDashboard_def del: feed.simps(2))

theorem C4_movement_cooldown_witness:
  "(0::nat) < 1 \<and> 1 < length ex_feed \<and> fst (ex_feed ! 1) - fst (ex_feed ! 0) \<le> 5000
 \<and> length (filter isMovement (snd (feed initialDashboard ex_feed) ! 0))
     + length (filter isMovement (snd (feed initialDashboard ex_feed) ! 1)) \<le> 1
 \<and> PostEvent ''movement_detected'' [(''accelX'', MNum 6)]
      \<in> set (snd (handleSensorData 10000 initialDashboard (sample 6 0 0 0 0 0)))
 \<and> \<bar>vx (accelerometer (sample 6 0 0 0 0 0))\<bar> > 5
 \<and> (''accelX'', MNum (vx (accelerometer (sample 6 0 0 0 0 0)))) \<in> set [(''accelX'', MNum 6)]"
proof -
  have h: "(0::nat) < 1 \<and> 1 < length ex_feed \<and> fst (ex_feed ! 1) - fst (ex_feed ! 0) \<le> 5000"
    by (simp add: ex_feed_def)
  have p: "PostEvent ''movement_detected'' [(''accelX'', MNum 6)]
      \<in> set (snd (handleSensorData 10000 initialDashboard (sample 6 0 0 0 0 0)))"
    by (simp add: handleSensorData_def Let_def accelMagnitude_def sample_def sqrt_gt_50
        movementExceeded_def movementMetadata_def MOVEMENT_EVENT_COOLDOWN_def initialDashboard_def
        split: prod.splits)
  have x: "\<bar>vx (accelerometer (sample 6 0 0 0 0 0))\<bar> > 5" by (simp add: sample_def)
  from C4_movement_cooldown[of ex_feed initialDashboard 10000 initialDashboard "sample 6 0 0 0 0 0"]
  have 1: "\<forall>i j. i < j \<and> j < length ex_feed \<and> fst (ex_feed ! j) - fst (ex_feed ! i) \<le> 5000 \<longrightarrow>
       length (filter isMovement (snd (feed initialDashboard ex_feed) ! i))
     + length (filter isMovement (snd (feed initialDashboard ex_feed) ! j)) \<le> 1"
    and 2: "\<forall>md. PostEvent ''movement_detected'' md
               \<in> set (snd (handleSensorData 10000 initialDashboard (sample 6 0 0 0 0 0))) \<longrightarrow>
       (\<bar>vx (accelerometer (sample 6 0 0 0 0 0))\<bar> > 5 \<longrightarrow>
          (''accelX'', MNum (vx (accelerometer (sample 6 0 0 0 0 0)))) \<in> set md)"
    by blast+
  from 1 h have a: "length (filter isMovement (snd (feed initialDashboard ex_feed) ! 0))
     + length (filter isMovement (snd (feed initialDashboard ex_feed) ! 1)) \<le> 1" by blast
  from 2 p x have b: "(''accelX'', MNum (vx (accelerometer (sample 6 0 0 0 0 0)))) \<in> set [(''accelX'', MNum 6)]"
    by blast
  from h a p x b show ?thesis by blast
qed

subsection \<open>The unlock flow: what the stored id guarantees\<close>

lemma faceOK_mono: "faceOK u tr \<Longrightarrow> faceOK u (tr @ ext)"
  unfolding faceOK_def by auto

lemma idStored_mono:
  assumes "idStored u tr" and "\<forall>x\<in>set ext. \<not> isStorage x"
  shows "idStored u (tr @ ext)"
proof -
  from assms(1) obtain a dsc r b c where c: "tr = a @ RecognizeExchange dsc r # b @ SetItem u # c"
      "ok r" "resp_userId r = u" "\<forall>x\<in>set c. \<not> isStorage x"
    unfolding idStored_def by blast
  have "tr @ ext = a @ RecognizeExchange dsc r # b @ SetItem u # (c @ ext)"
    using c(1) by simp
  moreover have "\<forall>x\<in>set (c @ ext). \<not> isStorage x" using c(4) assms(2) by auto
  ultimately show ?thesis unfolding idStored_def using c(2,3) by blast
qed

lemma pinOK_mono:
  assumes "pinOK u tr"
  shows "pinOK u (tr @ ext)"
proof -
  from assms obtain pre p r' post where r: "tr = pre @ VerifyPinExchange u p r' # post"
      "ok r'" "idStored u pre"
    unfolding pinOK_def by blast
  have "tr @ ext = pre @ VerifyPinExchange u p r' # (post @ ext)" using r(1) by simp
  with r(2,3) show ?thesis unfolding pinOK_def by blast
qed

lemma voiceOK_mono:
  assumes "voiceOK tr"
  shows "voiceOK (tr @ ext)"
proof -
  from assms obtain u pre p r' mid post
    where r: "tr = pre @ VerifyPinExchange u p r' # mid @ Recording True # post"
      "ok r'" "idStored u pre"
    unfolding voiceOK_def by blast
  have "tr @ ext = pre @ VerifyPinExchange u p r' # mid @ Recording True # (post @ ext)"
    using r(1) by simp
  with r(2,3) show ?thesis unfolding voiceOK_def by blast
qed

lemma faceOK_new: "ok r \<Longrightarrow> faceOK (resp_userId r) (tr @ [RecognizeExchange dsc r])"
  unfolding faceOK_def by auto

lemma idStored_new:
  assumes "faceOK u tr"
  shows "idStored u (tr @ [SetItem u])"
proof -
  from assms obtain dsc r where r: "ok r" "resp_userId r = u" "RecognizeExchange dsc r \<in> set tr"
    unfolding faceOK_def by blast
  from split_list[OF r(3)] obtain a b where "tr = a @ RecognizeExchange dsc r # b" by blast
  then have "tr @ [SetItem u] = a @ RecognizeExchange dsc r # b @ SetItem u # []" by simp
  with r(1,2) show ?thesis unfolding idStored_def by (metis empty_iff list.set(1))
qed

lemma pinOK_new:
  assumes "idStored u tr" and "ok r'"
  shows "pinOK u (tr @ [VerifyPinExchange u p r'])"
  unfolding pinOK_def using assms by blast

lemma voiceOK_new:
  assumes "pinOK u tr"
  shows "voiceOK (tr @ [Recording True])"
proof -
  from assms obtain pre p r' post where r: "tr = pre @ VerifyPinExchange u p r' # post"
      "ok r'" "idStored u pre"
    unfolding pinOK_def by blast
  have "tr @ [Recording True] = pre @ VerifyPinExchange u p r' # post @ Recording True # []"
    using r(1) by simp
  with r(2,3) show ?thesis unfolding voiceOK_def by blast
qed

lemma guarded_append:
  assumes "guarded tr" and "\<forall>x\<in>set ext. \<not> isOpen x"
  shows "guarded (tr @ ext)"
  unfolding guarded_def
proof (intro allI impI)
  fix k assume k: "k < length (tr @ ext)" and o: "isOpen ((tr @ ext) ! k)"
  show "voiceOK (take k (tr @ ext))"
  proof (cases "k < length tr")
    case True
    with o assms(1) have "voiceOK (take k tr)" by (simp add: guarded_def nth_append)
    with True show ?thesis by simp
  next
    case False
    with k have "(tr @ ext) ! k \<in> set ext" by (simp add: nth_append)
    with assms(2) o show ?thesis by blast
  qed
qed

lemma guarded_open:
  assumes "guarded tr" and "voiceOK tr"
  shows "guarded (tr @ [ActuatorFetch url 90])"
  unfolding guarded_def
proof (intro allI impI)
  fix k assume k: "k < length (tr @ [ActuatorFetch url 90])"
    and o: "isOpen ((tr @ [ActuatorFetch url 90]) ! k)"
  show "voiceOK (take k (tr @ [ActuatorFetch url 90]))"
  proof (cases "k < length tr")
    case True
    with o assms(1) have "voiceOK (take k tr)" by (simp add: guarded_def nth_append)
    with True show ?thesis by simp
  next
    case False
    with k have "k = length tr" by simp
    with assms(2) show ?thesis by simp
  qed
qed

lemma set_removeAt: "set (removeAt i xs) \<subseteq> set xs"
  unfolding removeAt_def by (auto dest: in_set_takeD in_set_dropD)

lemma inv_page: "inv bc (s\<lparr>page := p\<rparr>) = inv bc s"
  by (simp add: inv_def)

lemma inv_extend:
  assumes "inv bc s"
    and "io_log s' = io_log s @ ext"
    and "guarded (io_log s')"
    and "\<forall>x\<in>set ext. genuine bc x"
    and "\<forall>u. recognizedUserId s' = Some u \<longrightarrow> idStored u (io_log s')"
    and "\<forall>r\<in>set (recognizeCalls s'). r \<in> set (recognizeCalls s) \<or> (ok r \<longrightarrow> faceOK (resp_userId r) (io_log s'))"
    and "\<forall>c\<in>set (verifyCalls s'). c \<in> set (verifyCalls s) \<or> (ok (snd c) \<longrightarrow> pinOK (fst c) (io_log s'))"
    and "\<forall>u\<in>set (recordingTimers s'). u \<in> set (recordingTimers s) \<or> pinOK u (io_log s')"
  shows "inv bc s'"
proof -
  have 2: "\<forall>r\<in>set (recognizeCalls s'). ok r \<longrightarrow> faceOK (resp_userId r) (io_log s')"
    using assms(1,6) faceOK_mono[of _ "io_log s" ext] unfolding inv_def assms(2) by blast
  have 3: "\<forall>c\<in>set (verifyCalls s'). ok (snd c) \<longrightarrow> pinOK (fst c) (io_log s')"
    using assms(1,7) pinOK_mono[of _ "io_log s" ext] unfolding inv_def assms(2) by blast
  have 4: "\<forall>u\<in>set (recordingTimers s'). pinOK u (io_log s')"
    using assms(1,8) pinOK_mono[of _ "io_log s" ext] unfolding inv_def assms(2) by blast
  have 5: "\<forall>x\<in>set (io_log s'). genuine bc x"
    using assms(1,4) unfolding inv_def assms(2) by auto
  from assms(5) 2 3 4 5 assms(3) show ?thesis unfolding inv_def by blast
qed

lemma inv_quiet:
  assumes "inv bc s"
    and "io_log s' = io_log s @ ext"
    and "\<forall>x\<in>set ext. \<not> isOpen x \<and> \<not> isStorage x \<and> genuine bc x"
    and "recognizedUserId s' = recognizedUserId s"
    and "\<forall>r\<in>set (recognizeCalls s'). r \<in> set (recognizeCalls s) \<or> (ok r \<longrightarrow> faceOK (resp_userId r) (io_log s'))"
    and "\<forall>c\<in>set (verifyCalls s'). c \<in> set (verifyCalls s) \<or> (ok (snd c) \<longrightarrow> pinOK (fst c) (io_log s'))"
    and "\<forall>u\<in>set (recordingTimers s'). u \<in> set (recordingTimers s) \<or> pinOK u (io_log s')"
  shows "inv bc s'"
proof (rule inv_extend[OF assms(1,2)])
  show "guarded (io_log s')"
    unfolding assms(2) using assms(1,3) guarded_append[of "io_log s" ext] by (simp add: inv_def)
  show "\<forall>u. recognizedUserId s' = Some u \<longrightarrow> idStored u (io_log s')"
    unfolding assms(2,4) using assms(1,3) idStored_mono[of _ "io_log s" ext]
    by (simp add: inv_def)
qed (use assms in simp_all)

lemma inv_same_log:
  assumes "inv bc s"
    and "io_log s' = io_log s"
    and "recognizedUserId s' = recognizedUserId s"
    and "\<forall>r\<in>set (recognizeCalls s'). r \<in> set (recognizeCalls s) \<or> (ok r \<longrightarrow> faceOK (resp_userId r) (io_log s'))"
    and "\<forall>c\<in>set (verifyCalls s'). c \<in> set (verifyCalls s) \<or> (ok (snd c) \<longrightarrow> pinOK (fst c) (io_log s'))"
    and "\<forall>u\<in>set (recordingTimers s'). u \<in> set (recordingTimers s) \<or> pinOK u (io_log s')"
  shows "inv bc s'"
  by (rule inv_quiet[OF assms(1), where ext = "[]"]) (use assms in simp_all)

lemma inv_backToLocked: "inv bc s \<Longrightarrow> inv bc (backToLocked msg s)"
  by (simp add: backToLocked_def inv_page)

lemma genuine_recognize:
  "genuine bc (RecognizeExchange dsc (fst (recognize_POST now d (Some \<lparr>q_descriptor = Some dsc\<rparr>))))"
  unfolding genuine_def by auto

lemma genuine_verify:
  "4 \<le> length p \<Longrightarrow>
   genuine bc (VerifyPinExchange u p (fst (verify_pin_POST bc now d (Some \<lparr>q_userId = Some u, q_pin = Some p\<rparr>))))"
  unfolding genuine_def by auto

lemma inv_scanCallback:
  assumes "inv bc s"
  shows "inv bc (scanCallback res now s)"
proof (cases res)
  case (Detected dsc)
  obtain resp d' where rp: "recognize_POST now (server s) (Some \<lparr>q_descriptor = Some dsc\<rparr>) = (resp, d')"
    by (cases "recognize_POST now (server s) (Some \<lparr>q_descriptor = Some dsc\<rparr>)")
  let ?s' = "s\<lparr>server := d', recognizeCalls := recognizeCalls s @ [resp],
                io_log := io_log s @ [RecognizeExchange dsc resp]\<rparr>"
  have eq: "scanCallback res now s = ?s'" by (simp add: scanCallback_def Detected rp)
  have g: "genuine bc (RecognizeExchange dsc resp)"
    using genuine_recognize[of bc dsc now "server s"] by (simp add: rp)
  have "inv bc ?s'"
  proof (rule inv_quiet[OF assms, where ext = "[RecognizeExchange dsc resp]"])
    show "\<forall>r\<in>set (recognizeCalls ?s'). r \<in> set (recognizeCalls s) \<or> (ok r \<longrightarrow> faceOK (resp_userId r) (io_log ?s'))"
      using faceOK_new[of resp "io_log s" dsc] by auto
  qed (use g in \<open>simp_all add: isOpen_def isStorage_def\<close>)
  then show ?thesis by (simp only: eq)
qed (use assms in \<open>simp_all add: scanCallback_def inv_backToLocked\<close>)

lemma inv_recognizeResponse:
  assumes "inv bc s" and "ok resp \<longrightarrow> faceOK (resp_userId resp) (io_log s)"
  shows "inv bc (recognizeResponse resp s)"
proof (cases "ok resp")
  case False
  then show ?thesis using assms(1) by (simp add: recognizeResponse_def inv_backToLocked)
next
  case True
  let ?s' = "recognizeResponse resp s"
  have log: "io_log ?s' = io_log s @ [SetItem (resp_userId resp)]"
    and id: "recognizedUserId ?s' = Some (resp_userId resp)"
    and same: "recognizeCalls ?s' = recognizeCalls s" "verifyCalls ?s' = verifyCalls s"
      "recordingTimers ?s' = recordingTimers s"
    using True by (simp_all add: recognizeResponse_def)
  show ?thesis
  proof (rule inv_extend[OF assms(1) log])
    show "guarded (io_log ?s')"
      unfolding log using assms(1) guarded_append[of "io_log s" "[SetItem (resp_userId resp)]"]
      by (simp add: inv_def isOpen_def)
    show "\<forall>u. recognizedUserId ?s' = Some u \<longrightarrow> idStored u (io_log ?s')"
      unfolding log id using idStored_new[of "resp_userId resp" "io_log s"] assms(2) True by simp
  qed (simp_all add: same genuine_def)
qed

lemma inv_verifyOnClick:
  assumes "inv bc s"
  shows "inv bc (verifyOnClick bc now s)"
proof (cases "pin (page s) = [] \<or> length (pin (page s)) < 4")
  case True
  then show ?thesis using assms by (auto simp: verifyOnClick_def Let_def inv_page)
next
  case False
  note guard = this
  show ?thesis
  proof (cases "recognizedUserId s")
    case None
    with guard assms show ?thesis by (auto simp: verifyOnClick_def Let_def inv_page)
  next
    case (Some u)
    show ?thesis
    proof (cases "u = []")
      case True
      with guard Some assms show ?thesis by (auto simp: verifyOnClick_def Let_def inv_page)
    next
      case False
      obtain resp d' where rp: "verify_pin_POST bc now (server s)
           (Some \<lparr>q_userId = Some u, q_pin = Some (pin (page s))\<rparr>) = (resp, d')"
        by (cases "verify_pin_POST bc now (server s) (Some \<lparr>q_userId = Some u, q_pin = Some (pin (page s))\<rparr>)")
      let ?x = "VerifyPinExchange u (pin (page s)) resp"
      let ?s' = "s\<lparr>server := d', verifyCalls := verifyCalls s @ [(u, resp)],
                   io_log := io_log s @ [?x]\<rparr>"
      have eq: "verifyOnClick bc now s = ?s'"
        using guard Some False by (simp add: verifyOnClick_def Let_def rp)
      have g: "genuine bc ?x"
        using genuine_verify[of "pin (page s)" bc u now "server s"] guard by (simp add: rp)
      have f: "idStored u (io_log s)" using assms Some by (simp add: inv_def)
      have "inv bc ?s'"
      proof (rule inv_quiet[OF assms, where ext = "[?x]"])
        show "\<forall>c\<in>set (verifyCalls ?s'). c \<in> set (verifyCalls s) \<or> (ok (snd c) \<longrightarrow> pinOK (fst c) (io_log ?s'))"
          using pinOK_new[OF f, of resp "pin (page s)"] by auto
      qed (use g in \<open>simp_all add: isOpen_def isStorage_def\<close>)
      then show ?thesis by (simp only: eq)
    qed
  qed
qed

lemma inv_verifyResponse:
  assumes "inv bc s" and "ok resp \<longrightarrow> pinOK u (io_log s)"
  shows "inv bc (verifyResponse u resp s)"
proof (cases "ok resp")
  case False
  let ?s' = "verifyResponse u resp s"
  have log: "io_log ?s' = io_log s @ [RemoveItem]"
    using False by (simp add: verifyResponse_def)
  show ?thesis
  proof (rule inv_extend[OF assms(1) log])
    show "guarded (io_log ?s')"
      unfolding log using assms(1) guarded_append[of "io_log s" "[RemoveItem]"]
      by (simp add: inv_def isOpen_def)
  qed (use False in \<open>simp_all add: verifyResponse_def genuine_def\<close>)
next
  case True
  show ?thesis unfolding verifyResponse_def using True
    by (simp, intro inv_same_log[OF assms(1)]) (use assms(2) True in auto)
qed

lemma inv_recordingCallback:
  assumes "inv bc s" and "pinOK u (io_log s)"
  shows "inv bc (recordingCallback u hasAudio now s)"
proof (cases hasAudio)
  case False
  let ?s' = "recordingCallback u hasAudio now s"
  have log: "io_log ?s' = io_log s @ [Recording False, RemoveItem]"
    using False by (simp add: recordingCallback_def Let_def)
  show ?thesis
  proof (rule inv_extend[OF assms(1) log])
    show "guarded (io_log ?s')"
      unfolding log using assms(1) guarded_append[of "io_log s" "[Recording False, RemoveItem]"]
      by (simp add: inv_def isOpen_def)
  qed (use False in \<open>simp_all add: recordingCallback_def Let_def genuine_def\<close>)
next
  case True
  let ?rq = "\<lparr>q_type = Some ''unlock'', q_evUserId = Some u, q_evUserName = None,
               q_metadata = Some [(''verified'', MStr ''face+pin+voice'')]\<rparr>"
  obtain resp d' where rp: "events_POST now (server s) (Some ?rq) = (resp, d')"
    by (cases "events_POST now (server s) (Some ?rq)")
  let ?s' = "recordingCallback u hasAudio now s"
  let ?log1 = "io_log s @ [Recording True, EventsExchange ?rq resp]"
  have v: "voiceOK ?log1"
    using voiceOK_mono[OF voiceOK_new[OF assms(2)], of "[EventsExchange ?rq resp]"] by simp
  have g1: "guarded ?log1"
    using assms(1) guarded_append[of "io_log s" "[Recording True, EventsExchange ?rq resp]"]
    by (simp add: inv_def isOpen_def)
  have fields: "recognizedUserId ?s' = None" "recognizeCalls ?s' = recognizeCalls s"
    "verifyCalls ?s' = verifyCalls s" "recordingTimers ?s' = recordingTimers s"
    using True by (simp_all add: recordingCallback_def Let_def rp split: option.splits)
  show ?thesis
  proof (cases "case esp32Url s of None \<Rightarrow> False | Some url \<Rightarrow> url \<noteq> []")
    case False
    have log: "io_log ?s' = io_log s @ [Recording True, EventsExchange ?rq resp, RemoveItem]"
      using True False by (auto simp: recordingCallback_def Let_def rp split: option.splits)
    show ?thesis
    proof (rule inv_extend[OF assms(1) log])
      show "guarded (io_log ?s')"
        unfolding log using guarded_append[OF g1, of "[RemoveItem]"] by (simp add: isOpen_def)
    qed (simp_all add: fields genuine_def)
  next
    case open_sent: True
    then obtain url where url: "esp32Url s = Some url" "url \<noteq> []"
      by (auto split: option.splits)
    have log: "io_log ?s' = io_log s @ [Recording True, EventsExchange ?rq resp, ActuatorFetch url 90, RemoveItem]"
      using True url by (simp add: recordingCallback_def Let_def rp)
    show ?thesis
    proof (rule inv_extend[OF assms(1) log])
      show "guarded (io_log ?s')"
        unfolding log using guarded_append[OF guarded_open[OF g1 v, of url], of "[RemoveItem]"]
        by (simp add: isOpen_def)
    qed (simp_all add: fields genuine_def)
  qed
qed

lemma inv_handleLock:
  assumes "inv bc s"
  shows "inv bc (handleLock reached now s)"
proof -
  let ?s' = "handleLock reached now s"
  obtain ext where log: "io_log ?s' = io_log s @ ext"
    and ext: "\<forall>x\<in>set ext. \<not> isOpen x \<and> \<not> isStorage x \<and> genuine bc x"
  proof (cases reached)
    case True
    then show ?thesis
      by (intro that[of "[ActuatorFetch (case esp32Url s of None \<Rightarrow> ''undefined'' | Some url \<Rightarrow> url) (- 90),
            EventsExchange \<lparr>q_type = Some ''lock'', q_evUserId = None, q_evUserName = None, q_metadata = None\<rparr>
              (fst (events_POST now (server s) (Some \<lparr>q_type = Some ''lock'', q_evUserId = None, q_evUserName = None, q_metadata = None\<rparr>)))]"])
         (simp_all add: handleLock_def Let_def isOpen_def isStorage_def genuine_def split: prod.splits)
  next
    case False
    then show ?thesis
      by (intro that[of "[ActuatorFetch (case esp32Url s of None \<Rightarrow> ''undefined'' | Some url \<Rightarrow> url) (- 90)]"])
         (simp_all add: handleLock_def Let_def isOpen_def isStorage_def genuine_def)
  qed
  have fields: "recognizedUserId ?s' = recognizedUserId s" "recognizeCalls ?s' = recognizeCalls s"
    "verifyCalls ?s' = verifyCalls s" "recordingTimers ?s' = recordingTimers s"
    by (simp_all add: handleLock_def Let_def split: prod.splits)
  show ?thesis
    by (rule inv_quiet[OF assms log]) (use ext in \<open>simp_all add: fields\<close>)
qed

lemma inv_drop_pending:
  assumes "inv bc s"
    and "set rc \<subseteq> set (recognizeCalls s)" and "set vc \<subseteq> set (verifyCalls s)"
    and "set rt \<subseteq> set (recordingTimers s)"
  shows "inv bc (s\<lparr>page := p, scanTimers := n, recognizeCalls := rc, verifyCalls := vc, recordingTimers := rt\<rparr>)"
  by (rule inv_same_log[OF assms(1)]) (use assms in auto)

lemma inv_step:
  assumes "inv bc s"
  shows "inv bc (step bc s a)"
proof (cases a)
  case (ModelsLoaded loaded)
  with assms show ?thesis by (simp add: step_def inv_page)
next
  case (PermissionsQueried cam mic)
  with assms show ?thesis by (simp add: step_def inv_page)
next
  case (ClickGrant res)
  with assms show ?thesis by (simp add: step_def inv_page)
next
  case (ClickUnlock res)
  have "inv bc (handleUnlock res s)"
    using assms by (auto simp: handleUnlock_def Let_def inv_page intro: inv_same_log)
  with ClickUnlock assms show ?thesis by (simp add: step_def)
next
  case (ScanTimer res now)
  have "inv bc (s\<lparr>scanTimers := scanTimers s - 1\<rparr>)"
    by (rule inv_same_log[OF assms]) simp_all
  from inv_scanCallback[OF this] ScanTimer assms show ?thesis by (simp add: step_def)
next
  case (RecognizeResponse i)
  show ?thesis
  proof (cases "i < length (recognizeCalls s)")
    case True
    let ?s1 = "s\<lparr>recognizeCalls := removeAt i (recognizeCalls s)\<rparr>"
    have 1: "inv bc ?s1"
      by (rule inv_same_log[OF assms]) (use set_removeAt[of i "recognizeCalls s"] in auto)
    have 2: "ok (recognizeCalls s ! i) \<longrightarrow> faceOK (resp_userId (recognizeCalls s ! i)) (io_log ?s1)"
      using assms True by (simp add: inv_def)
    from inv_recognizeResponse[OF 1 2] RecognizeResponse True show ?thesis by (simp add: step_def)
  next
    case False
    with RecognizeResponse assms show ?thesis by (simp add: step_def)
  qed
next
  case (TypePin v)
  with assms show ?thesis by (simp add: step_def inv_page)
next
  case (ClickVerify now)
  with assms inv_verifyOnClick[OF assms] show ?thesis by (simp add: step_def)
next
  case (VerifyResponse i)
  show ?thesis
  proof (cases "i < length (verifyCalls s)")
    case True
    let ?s1 = "s\<lparr>verifyCalls := removeAt i (verifyCalls s)\<rparr>"
    have 1: "inv bc ?s1"
      by (rule inv_same_log[OF assms]) (use set_removeAt[of i "verifyCalls s"] in auto)
    have 2: "ok (snd (verifyCalls s ! i)) \<longrightarrow> pinOK (fst (verifyCalls s ! i)) (io_log ?s1)"
      using assms True by (simp add: inv_def)
    from inv_verifyResponse[OF 1 2] VerifyResponse True show ?thesis by (simp add: step_def)
  next
    case False
    with VerifyResponse assms show ?thesis by (simp add: step_def)
  qed
next
  case (RecordingTimer i hasAudio now)
  show ?thesis
  proof (cases "i < length (recordingTimers s)")
    case True
    let ?s1 = "s\<lparr>recordingTimers := removeAt i (recordingTimers s)\<rparr>"
    have 1: "inv bc ?s1"
      by (rule inv_same_log[OF assms]) (use set_removeAt[of i "recordingTimers s"] in auto)
    have 2: "pinOK (recordingTimers s ! i) (io_log ?s1)"
      using assms True by (simp add: inv_def)
    from inv_recordingCallback[OF 1 2] RecordingTimer True show ?thesis by (simp add: step_def)
  next
    case False
    with RecordingTimer assms show ?thesis by (simp add: step_def)
  qed
next
  case (ClickLock reached now)
  with assms inv_handleLock[OF assms] show ?thesis by (simp add: step_def)
next
  case Reload
  have "inv bc (s\<lparr>page := initialPage, scanTimers := 0, recognizeCalls := [], verifyCalls := [],
            recordingTimers := []\<rparr>)"
    by (rule inv_drop_pending[OF assms]) simp_all
  with Reload show ?thesis by (simp add: step_def)
qed

lemma inv_initial: "inv bc (initialSys url d)"
  by (simp add: inv_def initialSys_def guarded_def)

lemma inv_run: "inv bc s \<Longrightarrow> inv bc (run bc s acts)"
  unfolding run_def by (induction acts arbitrary: s) (simp_all add: inv_step)

text \<open>
  Every exchange in the log of the page is what the route answered to that request, and
  every PIN in it has at least four characters: each step of the page keeps this.
\<close>

lemma genuine_step:
  assumes "\<forall>x\<in>set (io_log s). genuine bc x"
  shows "\<forall>x\<in>set (io_log (step bc s a)). genuine bc x"
proof (cases a)
  case (ScanTimer res now)
  show ?thesis
  proof (cases res)
    case (Detected dsc)
    obtain resp d' where rp: "recognize_POST now (server s) (Some \<lparr>q_descriptor = Some dsc\<rparr>) = (resp, d')"
      by (cases "recognize_POST now (server s) (Some \<lparr>q_descriptor = Some dsc\<rparr>)")
    have g: "genuine bc (RecognizeExchange dsc resp)"
      using genuine_recognize[of bc dsc now "server s"] by (simp add: rp)
    with assms ScanTimer Detected show ?thesis
      by (auto simp: step_def scanCallback_def rp)
  qed (use assms ScanTimer in \<open>simp_all add: step_def scanCallback_def backToLocked_def\<close>)
next
  case (RecognizeResponse i)
  with assms show ?thesis
    by (auto simp: step_def recognizeResponse_def backToLocked_def genuine_def)
next
  case (ClickVerify now)
  show ?thesis
  proof (cases "safeState (page s) = Unlocking \<and> \<not> (pin (page s) = [] \<or> length (pin (page s)) < 4)
                 \<and> recognizedUserId s \<noteq> None")
    case True
    then obtain u where u: "recognizedUserId s = Some u" by auto
    obtain resp d' where rp: "verify_pin_POST bc now (server s)
        (Some \<lparr>q_userId = Some u, q_pin = Some (pin (page s))\<rparr>) = (resp, d')"
      by (cases "verify_pin_POST bc now (server s) (Some \<lparr>q_userId = Some u, q_pin = Some (pin (page s))\<rparr>)")
    have g: "genuine bc (VerifyPinExchange u (pin (page s)) resp)"
      using genuine_verify[of "pin (page s)" bc u now "server s"] True by (simp add: rp)
    with assms ClickVerify True u show ?thesis
      by (auto simp: step_def verifyOnClick_def Let_def rp)
  next
    case False
    with assms ClickVerify show ?thesis
      by (auto simp: step_def verifyOnClick_def Let_def split: option.splits)
  qed
next
  case (VerifyResponse i)
  with assms show ?thesis
    by (auto simp: step_def verifyResponse_def genuine_def)
next
  case (RecordingTimer i hasAudio now)
  with assms show ?thesis
    by (auto simp: step_def recordingCallback_def Let_def genuine_def split: prod.splits option.splits)
next
  case (ClickLock reached now)
  with assms show ?thesis
    by (auto simp: step_def handleLock_def Let_def genuine_def split: prod.splits)
next
  case (ClickUnlock res)
  with assms show ?thesis by (auto simp: step_def handleUnlock_def Let_def)
qed (use assms in \<open>simp_all add: step_def\<close>)

lemma genuine_run:
  "\<forall>x\<in>set (io_log s). genuine bc x \<Longrightarrow> \<forall>x\<in>set (io_log (run bc s acts)). genuine bc x"
  unfolding run_def
proof (induction acts arbitrary: s)
  case Nil
  then show ?case by simp
next
  case (Cons a acts)
  from Cons.IH[OF genuine_step[OF Cons.prems]] show ?case by simp
qed

lemma recognize_ok:
  assumes "ok (fst (recognize_POST now d (Some \<lparr>q_descriptor = Some dsc\<rparr>)))"
  shows "\<exists>m. recognizeFaceFromDescriptor d dsc = Some m
           \<and> resp_userId (fst (recognize_POST now d (Some \<lparr>q_descriptor = Some dsc\<rparr>))) = m_userId m"
proof (cases "recognizeFaceFromDescriptor d dsc")
  case None
  with assms show ?thesis
    by (simp add: recognize_POST_def ok_def json_def split: prod.splits)
next
  case (Some m)
  then show ?thesis
    by (simp add: recognize_POST_def json_def resp_userId_def)
qed

lemma verify_pin_POST_present:
  assumes "u \<noteq> []" and "p \<noteq> []"
  shows "verify_pin_POST bc now d (Some \<lparr>q_userId = Some u, q_pin = Some p\<rparr>) =
     (case getUserById d u of
        None \<Rightarrow> (json 404 (ErrorBody ''User not found''), d)
      | Some user \<Rightarrow>
          (case u_pinHash user of
             None \<Rightarrow> (json 400 (ErrorBody ''PIN not set for this user''), d)
           | Some pinHash \<Rightarrow>
               (if pinHash = [] then (json 400 (ErrorBody ''PIN not set for this user''), d)
                else if \<not> bc p pinHash then
                  (json 401 (ErrorBody ''Invalid PIN''),
                   fst (createEvent now d
                          \<lparr>n_type = ''unauthorized_face'', n_userId = Some u,
                           n_userName = Some (u_name user),
                           n_metadata = Some [(''reason'', MStr ''Invalid PIN'')]\<rparr>))
                else (json 200 SuccessBody, d))))"
  using assms by (simp add: verify_pin_POST_def split: option.splits prod.splits)

lemma verify_pin_POST_missing:
  assumes "u = [] \<or> p = []"
  shows "verify_pin_POST bc now d (Some \<lparr>q_userId = Some u, q_pin = Some p\<rparr>) =
           (json 400 (ErrorBody ''UserId and PIN are required''), d)"
  using assms by (auto simp: verify_pin_POST_def)

lemma verify_ok:
  assumes "ok (fst (verify_pin_POST bc now d (Some \<lparr>q_userId = Some u, q_pin = Some p\<rparr>)))"
  shows "\<exists>user h. getUserById d u = Some user \<and> u_pinHash user = Some h \<and> bc p h"
proof (cases "u = [] \<or> p = []")
  case True
  with assms show ?thesis by (simp add: verify_pin_POST_missing ok_def json_def)
next
  case False
  then have eq: "verify_pin_POST bc now d (Some \<lparr>q_userId = Some u, q_pin = Some p\<rparr>) =
     (case getUserById d u of
        None \<Rightarrow> (json 404 (ErrorBody ''User not found''), d)
      | Some user \<Rightarrow>
          (case u_pinHash user of
             None \<Rightarrow> (json 400 (ErrorBody ''PIN not set for this user''), d)
           | Some pinHash \<Rightarrow>
               (if pinHash = [] then (json 400 (ErrorBody ''PIN not set for this user''), d)
                else if \<not> bc p pinHash then
                  (json 401 (ErrorBody ''Invalid PIN''),
                   fst (createEvent now d
                          \<lparr>n_type = ''unauthorized_face'', n_userId = Some u,
                           n_userName = Some (u_name user),
                           n_metadata = Some [(''reason'', MStr ''Invalid PIN'')]\<rparr>))
                else (json 200 SuccessBody, d))))"
    by (intro verify_pin_POST_present) simp_all
  show ?thesis
  proof (cases "getUserById d u")
    case None
    with assms show ?thesis unfolding eq by (simp add: ok_def json_def)
  next
    case (Some user)
    note user = this
    show ?thesis
    proof (cases "u_pinHash user")
      case None
      with assms user show ?thesis unfolding eq by (simp add: ok_def json_def)
    next
      case (Some h)
      with assms user have "bc p h" unfolding eq
        by (cases "bc p h"; cases "h = []") (simp_all add: ok_def json_def)
      with user Some show ?thesis by simp
    qed
  qed
qed

lemma non_unlock_step_sends_no_open:
  assumes "\<forall>i t. a \<noteq> RecordingTimer i True t"
  shows "filter isOpen (io_log (step bc s a)) = filter isOpen (io_log s)"
proof (cases a)
  case (ScanTimer res now)
  then show ?thesis
    by (cases res) (simp_all add: step_def scanCallback_def backToLocked_def isOpen_def split: prod.splits)
next
  case (RecognizeResponse i)
  then show ?thesis by (simp add: step_def recognizeResponse_def backToLocked_def isOpen_def)
next
  case (ClickVerify now)
  then show ?thesis
    by (simp add: step_def verifyOnClick_def Let_def isOpen_def split: option.splits prod.splits)
next
  case (VerifyResponse i)
  then show ?thesis by (simp add: step_def verifyResponse_def isOpen_def)
next
  case (RecordingTimer i hasAudio now)
  with assms have "\<not> hasAudio" by auto
  with RecordingTimer show ?thesis by (simp add: step_def recordingCallback_def Let_def isOpen_def)
next
  case (ClickLock reached now)
  then show ?thesis by (simp add: step_def handleLock_def Let_def isOpen_def split: prod.splits)
next
  case (ClickUnlock res)
  then show ?thesis by (simp add: step_def handleUnlock_def Let_def)
qed (simp_all add: step_def)

text \<open>
  What the page does guarantee in every run from its initial state, reloads included:
  before each open command the log holds, in this order, a recognition request that the
  server answered ok because a stored face matched; the storing of that user's id; with
  no write to the stored id in between, a PIN verification request for that user that
  the server answered ok because the PIN compared equal to the user's stored hash; and
  a recording in which audio was detected. Only the recording callback with audio sends
  an open command. The recognition may lie in an earlier load of the page, and a failed
  face scan may lie between it and the PIN verification: the stored id survives both.
\<close>

lemma open_preceded_by_stored_id_pin_voice:
  "(\<forall>k base. k < length (io_log (run bc (initialSys url d) acts))
        \<and> io_log (run bc (initialSys url d) acts) ! k = ActuatorFetch base 90 \<longrightarrow>
      (\<exists>u dsc r p r' a b c e f.
          take k (io_log (run bc (initialSys url d) acts)) =
            a @ RecognizeExchange dsc r # b @ SetItem u # c
              @ VerifyPinExchange u p r' # e @ Recording True # f
        \<and> (\<forall>x\<in>set c. \<not> isStorage x)
        \<and> (\<exists>t0 d0 m. r = fst (recognize_POST t0 d0 (Some \<lparr>q_descriptor = Some dsc\<rparr>))
              \<and> recognizeFaceFromDescriptor d0 dsc = Some m \<and> m_userId m = u)
        \<and> (\<exists>t1 d1 user h. r' = fst (verify_pin_POST bc t1 d1 (Some \<lparr>q_userId = Some u, q_pin = Some p\<rparr>))
              \<and> getUserById d1 u = Some user \<and> u_pinHash user = Some h \<and> bc p h)))
 \<and> (\<forall>s a. (\<forall>i t. a \<noteq> RecordingTimer i True t) \<longrightarrow>
        filter isOpen (io_log (step bc s a)) = filter isOpen (io_log s))"
proof -
  let ?log = "io_log (run bc (initialSys url d) acts)"
  have I: "inv bc (run bc (initialSys url d) acts)"
    by (rule inv_run[OF inv_initial])
  have main: "\<exists>u dsc r p r' a b c e f.
          take k ?log = a @ RecognizeExchange dsc r # b @ SetItem u # c
              @ VerifyPinExchange u p r' # e @ Recording True # f
        \<and> (\<forall>x\<in>set c. \<not> isStorage x)
        \<and> (\<exists>t0 d0 m. r = fst (recognize_POST t0 d0 (Some \<lparr>q_descriptor = Some dsc\<rparr>))
              \<and> recognizeFaceFromDescriptor d0 dsc = Some m \<and> m_userId m = u)
        \<and> (\<exists>t1 d1 user h. r' = fst (verify_pin_POST bc t1 d1 (Some \<lparr>q_userId = Some u, q_pin = Some p\<rparr>))
              \<and> getUserById d1 u = Some user \<and> u_pinHash user = Some h \<and> bc p h)"
    if k: "k < length ?log" and o: "?log ! k = ActuatorFetch base 90" for k base
  proof -
    from I k o have "voiceOK (take k ?log)" by (simp add: inv_def guarded_def isOpen_def)
    then obtain u pre p r' e f
      where v: "take k ?log = pre @ VerifyPinExchange u p r' # e @ Recording True # f"
        "ok r'" "idStored u pre"
      unfolding voiceOK_def by blast
    from v(3) obtain a dsc r b c
      where c: "pre = a @ RecognizeExchange dsc r # b @ SetItem u # c"
        "ok r" "resp_userId r = u" "\<forall>x\<in>set c. \<not> isStorage x"
      unfolding idStored_def by blast
    have split: "take k ?log = a @ RecognizeExchange dsc r # b @ SetItem u # c
              @ VerifyPinExchange u p r' # e @ Recording True # f"
      using v(1) c(1) by simp
    have mem: "x \<in> set (take k ?log) \<Longrightarrow> genuine bc x" for x
      using I in_set_takeD[of x k ?log] by (auto simp: inv_def)
    have "genuine bc (RecognizeExchange dsc r)" by (rule mem) (simp add: split)
    then obtain t0 d0
      where r0: "r = fst (recognize_POST t0 d0 (Some \<lparr>q_descriptor = Some dsc\<rparr>))"
      by (auto simp: genuine_def)
    from recognize_ok[of t0 d0 dsc] c(2,3) r0 obtain m
      where m: "recognizeFaceFromDescriptor d0 dsc = Some m" "m_userId m = u" by auto
    have "genuine bc (VerifyPinExchange u p r')" by (rule mem) (simp add: split)
    then obtain t1 d1
      where r1: "r' = fst (verify_pin_POST bc t1 d1 (Some \<lparr>q_userId = Some u, q_pin = Some p\<rparr>))"
      by (auto simp: genuine_def)
    from verify_ok[of bc t1 d1 u p] v(2) r1 obtain user h
      where h: "getUserById d1 u = Some user" "u_pinHash user = Some h" "bc p h" by auto
    from split c(4) r0 m r1 h show ?thesis by blast
  qed
  from main non_unlock_step_sends_no_open show ?thesis by blast
qed

text \<open>
  Claim C7. The handler of the verify button refuses a PIN shorter than four characters
  before anything is sent: the state changes in its status message only, no request goes
  to \<open>/api/face/verify-pin\<close> (so nothing is compared with the stored hash), nothing is
  pending that could continue to the voice stage, and the button itself is disabled. In
  every run of the page, each PIN that reaches the route has at least four characters.
\<close>

theorem C7_short_pin_never_submitted:
  "(length (pin (page s)) < 4 \<longrightarrow>
      verifyOnClick bc now s =
        s\<lparr>page := (page s)\<lparr>statusMessage := ''Please enter a valid PIN (at least 4 digits).''\<rparr>\<rparr>
    \<and> io_log (verifyOnClick bc now s) = io_log s
    \<and> server (verifyOnClick bc now s) = server s
    \<and> verifyCalls (verifyOnClick bc now s) = verifyCalls s
    \<and> step bc s (ClickVerify now) = s)
 \<and> (\<forall>u p r. VerifyPinExchange u p r \<in> set (io_log (run bc (initialSys url d) acts)) \<longrightarrow>
        4 \<le> length p)"
proof -
  have a: "verifyOnClick bc now s =
        s\<lparr>page := (page s)\<lparr>statusMessage := ''Please enter a valid PIN (at least 4 digits).''\<rparr>\<rparr>
    \<and> io_log (verifyOnClick bc now s) = io_log s
    \<and> server (verifyOnClick bc now s) = server s
    \<and> verifyCalls (verifyOnClick bc now s) = verifyCalls s
    \<and> step bc s (ClickVerify now) = s" if "length (pin (page s)) < 4"
    using that by (simp add: verifyOnClick_def step_def Let_def)
  have "\<forall>x\<in>set (io_log (run bc (initialSys url d) acts)). genuine bc x"
    by (rule genuine_run) (simp add: initialSys_def)
  then have b: "4 \<le> length p"
    if "VerifyPinExchange u p r \<in> set (io_log (run bc (initialSys url d) acts))" for u p r
    using that by (auto simp: genuine_def)
  from a b show ?thesis by blast
qed

text \<open>
  Claim C8. A recognition request without a descriptor, and a PIN verification request
  whose \<open>userId\<close> or \<open>pin\<close> is missing (or empty), is answered with status 400, and the
  stored users, events and faces are left as they were: nothing is written, no event is
  logged.
\<close>

theorem C8_validation_errors_leave_no_trace:
  "(q_descriptor rq = None \<longrightarrow>
      recognize_POST now d (Some rq) = (json 400 (ErrorBody ''descriptor is required''), d))
 \<and> (falsy (q_userId vq) \<or> falsy (q_pin vq) \<longrightarrow>
      verify_pin_POST bc now d (Some vq) = (json 400 (ErrorBody ''UserId and PIN are required''), d))"
proof -
  have a: "recognize_POST now d (Some rq) = (json 400 (ErrorBody ''descriptor is required''), d)"
    if "q_descriptor rq = None"
    using that by (simp add: recognize_POST_def)
  have b: "verify_pin_POST bc now d (Some vq) = (json 400 (ErrorBody ''UserId and PIN are required''), d)"
    if "falsy (q_userId vq) \<or> falsy (q_pin vq)"
    using that by (auto simp: verify_pin_POST_def falsy_def split: option.splits)
  from a b show ?thesis by blast
qed

theorem C8_validation_errors_leave_no_trace_witness:
  "q_descriptor \<lparr>q_descriptor = None\<rparr> = None
 \<and> recognize_POST 5000 ex_store (Some \<lparr>q_descriptor = None\<rparr>)
      = (\<lparr>status = 400, body = ErrorBody ''descriptor is required''\<rparr>, ex_store)
 \<and> falsy (q_pin \<lparr>q_userId = Some ''alice'', q_pin = None\<rparr>)
 \<and> verify_pin_POST ex_bc 5000 ex_store (Some \<lparr>q_userId = Some ''alice'', q_pin = None\<rparr>)
      = (\<lparr>status = 400, body = ErrorBody ''UserId and PIN are required''\<rparr>, ex_store)"
proof -
  have h1: "q_descriptor \<lparr>q_descriptor = None\<rparr> = None" by simp
  have h2: "falsy (q_pin \<lparr>q_userId = Some ''alice'', q_pin = None\<rparr>)" by (simp add: falsy_def)
  from C8_validation_errors_leave_no_trace[of "\<lparr>q_descriptor = None\<rparr>" 5000 ex_store
      "\<lparr>q_userId = Some ''alice'', q_pin = None\<rparr>" ex_bc] h1 h2
  show ?thesis by (simp add: json_def)
qed

text \<open>
  The minimum length of a PIN is the page's check: the route tests that a PIN is present
  and compares whatever it is given.
\<close>

lemma verify_pin_POST_checks_presence_only:
  "verify_pin_POST ex_bc now
     \<lparr>USERS_FILE = [\<lparr>u_id = ''bob'', u_name = ''Bob'', u_email = ''bob@safe.local'',
                      u_passwordHash = ''x'', u_isAdmin = False, u_faceDescriptor = None,
                      u_voicePhrase = None, u_pinHash = Some ''h:123'', u_createdAt = 0\<rparr>],
      EVENTS_FILE = [], FACES_FILE = []\<rparr>
     (Some \<lparr>q_userId = Some ''bob'', q_pin = Some ''123''\<rparr>)
   = (\<lparr>status = 200, body = SuccessBody\<rparr>,
      \<lparr>USERS_FILE = [\<lparr>u_id = ''bob'', u_name = ''Bob'', u_email = ''bob@safe.local'',
                      u_passwordHash = ''x'', u_isAdmin = False, u_faceDescriptor = None,
                      u_voicePhrase = None, u_pinHash = Some ''h:123'', u_createdAt = 0\<rparr>],
      EVENTS_FILE = [], FACES_FILE = []\<rparr>)"
  by (simp add: verify_pin_POST_present getUserById_def getUsers_def ex_bc_def json_def)

text \<open>
  A request that the dashboard or the page posts to \<open>/api/events\<close> is logged: the route
  appends one event of the posted type and metadata.
\<close>

lemma events_POST_logs:
  assumes "type \<noteq> []"
  shows "events_POST now d (Some \<lparr>q_type = Some type, q_evUserId = u, q_evUserName = n,
                                   q_metadata = md\<rparr>) =
     (json 200 (EventBody \<lparr>e_id = now, e_type = type, e_userId = u, e_userName = n,
                            e_timestamp = now, e_metadata = md\<rparr>),
      d\<lparr>EVENTS_FILE := getEvents d None
            @ [\<lparr>e_id = now, e_type = type, e_userId = u, e_userName = n,
                 e_timestamp = now, e_metadata = md\<rparr>]\<rparr>)"
  using assms by (simp add: events_POST_def createEvent_def Let_def)

lemma recognize_POST_match:
  assumes "recognizeFaceFromDescriptor d dsc = Some m"
  shows "recognize_POST now d (Some \<lparr>q_descriptor = Some dsc\<rparr>) =
           (json 200 (RecognizeBody (m_userId m) (map_option u_name (getUserById d (m_userId m)))
                        (m_distance m)), d)"
  using assms by (simp add: recognize_POST_def)




lemma ex_lookup: "getUserById ex_store ''alice'' = Some (hd (USERS_FILE ex_store))"
  by (simp add: getUserById_def getUsers_def ex_store_def)

lemma ex_match:
  "recognizeFaceFromDescriptor ex_store [1 / 10] = Some \<lparr>m_userId = ''alice'', m_distance = 0\<rparr>"
  by (simp add: recognizeFaceFromDescriptor_def getFaceData_def ex_store_def distance_single
      threshold_def Let_def)

lemma ex_ready_eq:
  "ex_ready = ex_sys\<lparr>page := \<lparr>safeState = Locked, pin = [], statusMessage = ''Models loaded. Ready to scan.'',
                               modelsLoaded = True, cameraPermission = Some True,
                               micPermission = Some True\<rparr>\<rparr>"
  by (simp add: ex_ready_def run_def step_def ex_sys_def initialSys_def initialPage_def)

lemmas ex_simps = run_def step_def handleUnlock_def scanCallback_def recognizeResponse_def
  verifyOnClick_def verifyResponse_def recordingCallback_def handleLock_def removeAt_def
  digitsOnly_def ok_def json_def resp_userId_def errorText_def Let_def
  ex_sys_def initialSys_def initialPage_def ex_bc_def

lemma ex_recognize:
  "recognize_POST 1000 ex_store (Some \<lparr>q_descriptor = Some [1 / 10]\<rparr>) =
     (\<lparr>status = 200, body = RecognizeBody ''alice'' (Some ''Alice'') 0\<rparr>, ex_store)"
  by (simp add: recognize_POST_match[OF ex_match] ex_lookup json_def) (simp add: ex_store_def)

lemma ex_verify_good:
  "verify_pin_POST ex_bc 2000 ex_store (Some \<lparr>q_userId = Some ''alice'', q_pin = Some ''4321''\<rparr>) =
     (\<lparr>status = 200, body = SuccessBody\<rparr>, ex_store)"
  by (simp add: verify_pin_POST_present ex_lookup) (simp add: ex_store_def ex_bc_def json_def)

lemma ex_unlock_log:
  "io_log (run ex_bc ex_ready ex_unlock) =
     [RecognizeExchange [1 / 10] \<lparr>status = 200, body = RecognizeBody ''alice'' (Some ''Alice'') 0\<rparr>,
      SetItem ''alice'',
      VerifyPinExchange ''alice'' ''4321'' \<lparr>status = 200, body = SuccessBody\<rparr>,
      Recording True,
      EventsExchange \<lparr>q_type = Some ''unlock'', q_evUserId = Some ''alice'', q_evUserName = None,
                       q_metadata = Some [(''verified'', MStr ''face+pin+voice'')]\<rparr>
        \<lparr>status = 200,
         body = EventBody \<lparr>e_id = 5000, e_type = ''unlock'', e_userId = Some ''alice'',
                           e_userName = None, e_timestamp = 5000,
                           e_metadata = Some [(''verified'', MStr ''face+pin+voice'')]\<rparr>\<rparr>,
      ActuatorFetch ''http://esp32.local/servo?angle='' 90,
      RemoveItem]"
  unfolding ex_ready_eq ex_unlock_def
  by (simp add: ex_simps ex_recognize ex_verify_good events_POST_def createEvent_def)

lemma run_append: "run bc s (as @ bs) = run bc (run bc s as) bs"
  by (simp add: run_def)

lemma ex_acts_log:
  "io_log (run ex_bc (initialSys (Some ''http://esp32.local/servo?angle='') ex_store) ex_acts) =
     [RecognizeExchange [1 / 10] \<lparr>status = 200, body = RecognizeBody ''alice'' (Some ''Alice'') 0\<rparr>,
      SetItem ''alice'',
      VerifyPinExchange ''alice'' ''4321'' \<lparr>status = 200, body = SuccessBody\<rparr>,
      Recording True,
      EventsExchange \<lparr>q_type = Some ''unlock'', q_evUserId = Some ''alice'', q_evUserName = None,
                       q_metadata = Some [(''verified'', MStr ''face+pin+voice'')]\<rparr>
        \<lparr>status = 200,
         body = EventBody \<lparr>e_id = 5000, e_type = ''unlock'', e_userId = Some ''alice'',
                           e_userName = None, e_timestamp = 5000,
                           e_metadata = Some [(''verified'', MStr ''face+pin+voice'')]\<rparr>\<rparr>,
      ActuatorFetch ''http://esp32.local/servo?angle='' 90,
      RemoveItem]"
  unfolding ex_acts_def run_append
  using ex_unlock_log by (simp only: ex_ready_def ex_sys_def)

theorem C7_short_pin_never_submitted_witness:
  "length (pin (page ex_short)) < 4
 \<and> io_log (verifyOnClick ex_bc 2000 ex_short) = []
 \<and> server (verifyOnClick ex_bc 2000 ex_short) = ex_store
 \<and> verifyCalls (verifyOnClick ex_bc 2000 ex_short) = []
 \<and> VerifyPinExchange ''alice'' ''4321'' \<lparr>status = 200, body = SuccessBody\<rparr>
      \<in> set (io_log (run ex_bc (initialSys (Some ''http://esp32.local/servo?angle='') ex_store) ex_acts))
 \<and> 4 \<le> length ''4321''"
proof -
  have h1: "length (pin (page ex_short)) < 4" by (simp add: ex_short_def)
  have h2: "VerifyPinExchange ''alice'' ''4321'' \<lparr>status = 200, body = SuccessBody\<rparr>
      \<in> set (io_log (run ex_bc (initialSys (Some ''http://esp32.local/servo?angle='') ex_store) ex_acts))"
    by (simp add: ex_acts_log)
  have f: "io_log ex_short = []" "server ex_short = ex_store" "verifyCalls ex_short = []"
    by (simp_all add: ex_short_def ex_ready_eq ex_sys_def initialSys_def)
  from C7_short_pin_never_submitted[of ex_short ex_bc 2000 "Some ''http://esp32.local/servo?angle=''" ex_store ex_acts]
    h1 h2 f
  show ?thesis by auto
qed


lemma ex_first_load_state:
  "run ex_bc ex_sys ex_first_load =
     ex_sys\<lparr>page := \<lparr>safeState = Unlocking, pin = [],
                       statusMessage = ''Face recognized. Please enter your PIN below.'',
                       modelsLoaded = True, cameraPermission = Some True,
                       micPermission = Some True\<rparr>,
             recognizedUserId := Some ''alice'',
             io_log := [RecognizeExchange [1 / 10] \<lparr>status = 200, body = RecognizeBody ''alice'' (Some ''Alice'') 0\<rparr>,
                        SetItem ''alice'']\<rparr>"
  unfolding ex_first_load_def
  by (simp add: ex_simps ex_recognize)

lemma ex_second_load_state:
  "run ex_bc (run ex_bc ex_sys ex_first_load) ex_second_load =
     ex_sys\<lparr>page := \<lparr>safeState = Locked, pin = ''4321'',
                       statusMessage = ''No face detected. Please position your face in the camera.'',
                       modelsLoaded = True, cameraPermission = Some True,
                       micPermission = Some True\<rparr>,
             recognizedUserId := Some ''alice'',
             recordingTimers := [''alice''],
             io_log := [RecognizeExchange [1 / 10] \<lparr>status = 200, body = RecognizeBody ''alice'' (Some ''Alice'') 0\<rparr>,
                        SetItem ''alice'',
                        VerifyPinExchange ''alice'' ''4321'' \<lparr>status = 200, body = SuccessBody\<rparr>]\<rparr>"
  unfolding ex_first_load_state ex_second_load_def
  by (simp add: ex_simps ex_verify_good backToLocked_def)

text \<open>
  Claim C1 does not hold of the code. In the run below the first load of the page
  recognises the face and stores the user's id in \<open>localStorage\<close>; the page is
  reloaded. In the second load the user clicks unlock, types the PIN and clicks verify
  while the scan timer is pending, and the scan then finds no face: the page shows
  \<open>No face detected\<close> and is locked, with no recognition request sent in this load.
  The handler of the verify button has read the id that the first load left in
  \<open>localStorage\<close>, which neither the failed scan nor the start of \<open>handleUnlock\<close>
  removes, so the recording timer of the verified PIN is pending; when it fires with
  audio the open command (angle 90) goes to the actuator and the page shows the safe
  unlocked. The face stage of the attempt that opened the safe failed.
\<close>

theorem C1_open_sent_after_failed_face_scan:
  "io_log (run ex_bc ex_sys ex_first_load) =
     [RecognizeExchange [1 / 10] \<lparr>status = 200, body = RecognizeBody ''alice'' (Some ''Alice'') 0\<rparr>,
      SetItem ''alice'']
 \<and> safeState (page (run ex_bc ex_sys (ex_first_load @ ex_second_load))) = Locked
 \<and> statusMessage (page (run ex_bc ex_sys (ex_first_load @ ex_second_load))) =
      ''No face detected. Please position your face in the camera.''
 \<and> io_log (run ex_bc ex_sys (ex_first_load @ ex_second_load)) =
     [RecognizeExchange [1 / 10] \<lparr>status = 200, body = RecognizeBody ''alice'' (Some ''Alice'') 0\<rparr>,
      SetItem ''alice'',
      VerifyPinExchange ''alice'' ''4321'' \<lparr>status = 200, body = SuccessBody\<rparr>]
 \<and> recordingTimers (run ex_bc ex_sys (ex_first_load @ ex_second_load)) = [''alice'']
 \<and> io_log (run ex_bc ex_sys (ex_first_load @ ex_second_load @ ex_voice)) =
     [RecognizeExchange [1 / 10] \<lparr>status = 200, body = RecognizeBody ''alice'' (Some ''Alice'') 0\<rparr>,
      SetItem ''alice'',
      VerifyPinExchange ''alice'' ''4321'' \<lparr>status = 200, body = SuccessBody\<rparr>,
      Recording True,
      EventsExchange \<lparr>q_type = Some ''unlock'', q_evUserId = Some ''alice'', q_evUserName = None,
                       q_metadata = Some [(''verified'', MStr ''face+pin+voice'')]\<rparr>
        \<lparr>status = 200,
         body = EventBody \<lparr>e_id = 5000, e_type = ''unlock'', e_userId = Some ''alice'',
                           e_userName = None, e_timestamp = 5000,
                           e_metadata = Some [(''verified'', MStr ''face+pin+voice'')]\<rparr>\<rparr>,
      ActuatorFetch ''http://esp32.local/servo?angle='' 90,
      RemoveItem]
 \<and> safeState (page (run ex_bc ex_sys (ex_first_load @ ex_second_load @ ex_voice))) = Unlocked"
proof -
  have 1: "run ex_bc ex_sys (ex_first_load @ ex_second_load) =
             run ex_bc (run ex_bc ex_sys ex_first_load) ex_second_load"
    by (rule run_append)
  have 2: "run ex_bc ex_sys (ex_first_load @ ex_second_load @ ex_voice) =
             run ex_bc (run ex_bc (run ex_bc ex_sys ex_first_load) ex_second_load) ex_voice"
    by (simp only: run_append)
  have a: "io_log (run ex_bc ex_sys ex_first_load) =
     [RecognizeExchange [1 / 10] \<lparr>status = 200, body = RecognizeBody ''alice'' (Some ''Alice'') 0\<rparr>,
      SetItem ''alice'']"
    unfolding ex_first_load_state by simp
  have b: "safeState (page (run ex_bc ex_sys (ex_first_load @ ex_second_load))) = Locked"
    "statusMessage (page (run ex_bc ex_sys (ex_first_load @ ex_second_load))) =
      ''No face detected. Please position your face in the camera.''"
    "io_log (run ex_bc ex_sys (ex_first_load @ ex_second_load)) =
     [RecognizeExchange [1 / 10] \<lparr>status = 200, body = RecognizeBody ''alice'' (Some ''Alice'') 0\<rparr>,
      SetItem ''alice'',
      VerifyPinExchange ''alice'' ''4321'' \<lparr>status = 200, body = SuccessBody\<rparr>]"
    "recordingTimers (run ex_bc ex_sys (ex_first_load @ ex_second_load)) = [''alice'']"
    unfolding 1 ex_second_load_state by simp_all
  have c: "io_log (run ex_bc ex_sys (ex_first_load @ ex_second_load @ ex_voice)) =
     [RecognizeExchange [1 / 10] \<lparr>status = 200, body = RecognizeBody ''alice'' (Some ''Alice'') 0\<rparr>,
      SetItem ''alice'',
      VerifyPinExchange ''alice'' ''4321'' \<lparr>status = 200, body = SuccessBody\<rparr>,
      Recording True,
      EventsExchange \<lparr>q_type = Some ''unlock'', q_evUserId = Some ''alice'', q_evUserName = None,
                       q_metadata = Some [(''verified'', MStr ''face+pin+voice'')]\<rparr>
        \<lparr>status = 200,
         body = EventBody \<lparr>e_id = 5000, e_type = ''unlock'', e_userId = Some ''alice'',
                           e_userName = None, e_timestamp = 5000,
                           e_metadata = Some [(''verified'', MStr ''face+pin+voice'')]\<rparr>\<rparr>,
      ActuatorFetch ''http://esp32.local/servo?angle='' 90,
      RemoveItem]"
    "safeState (page (run ex_bc ex_sys (ex_first_load @ ex_second_load @ ex_voice))) = Unlocked"
    unfolding 2 ex_second_load_state
    by (simp_all add: ex_voice_def ex_simps events_POST_def createEvent_def)
  from a b c show ?thesis by (intro conjI)
qed

end
